theory Spec2Isabelle
  imports Main "HOL-Library.Word"
begin

section \<open>The tokenizer of \<^verbatim>\<open>src/lexical.cpp\<close>\<close>

text \<open>
  The program is a single-pass lexer for C-like source text. The class \<^verbatim>\<open>Tokenizer\<close>
  owns the source string and a cursor (\<^verbatim>\<open>pos\<close>, \<^verbatim>\<open>line\<close>, \<^verbatim>\<open>column\<close>); every member
  function mutates the cursor. Here each member function takes the tokenizer state and
  returns the new one, and every \<^verbatim>\<open>while\<close> loop is a recursive function with a
  termination proof.

  Conventions of the embedding:
  \<^item> \<^verbatim>\<open>std::string\<close> is a list of bytes, \<^typ>\<open>string\<close>; it may contain the byte 0.
  \<^item> \<^verbatim>\<open>size_t pos\<close> is a \<^typ>\<open>nat\<close>: it is bounded by the length of the source, which
    fits the type.
  \<^item> \<^verbatim>\<open>int line, column\<close> and the fields \<^verbatim>\<open>line\<close>, \<^verbatim>\<open>column\<close> of a token are 32-bit
    integers in two's complement, \<open>32 word\<close> read by \<open>sint\<close>. \<^verbatim>\<open>line++\<close> and \<^verbatim>\<open>column++\<close>
    are \<open>+ 1\<close> on words: at \<open>2^31 - 1\<close> they wrap around to \<open>- 2^31\<close>. C++ leaves the
    overflow of a signed integer undefined; the wrap-around is what two's complement
    hardware gives, and whatever the program does there, no \<^verbatim>\<open>int\<close> holds the number
    \<open>2^31\<close>.
  \<^item> \<^verbatim>\<open>std::isspace\<close>, \<^verbatim>\<open>std::isalpha\<close>, \<^verbatim>\<open>std::isdigit\<close>, \<^verbatim>\<open>std::isalnum\<close> come from
    \<^verbatim>\<open><cctype>\<close>; they are modelled as in the default "C" locale, where no byte above
    127 belongs to any class.
\<close>

type_synonym int32 = "32 word"

subsection \<open>Characters\<close>

abbreviation NUL :: char where "NUL \<equiv> CHR 0x00"
abbreviation NEWLINE :: char where "NEWLINE \<equiv> CHR 0x0A"
abbreviation DQUOTE :: char where "DQUOTE \<equiv> CHR 0x22"
abbreviation BACKSLASH :: char where "BACKSLASH \<equiv> CHR 0x5C"

definition isspace :: "char \<Rightarrow> bool" where
  "isspace c = (c = CHR 0x20 \<or> c = CHR 0x09 \<or> c = CHR 0x0A \<or> c = CHR 0x0B
                \<or> c = CHR 0x0C \<or> c = CHR 0x0D)"

definition isdigit :: "char \<Rightarrow> bool" where
  "isdigit c = (let n = (of_char c :: nat) in 48 \<le> n \<and> n \<le> 57)"

definition isalpha :: "char \<Rightarrow> bool" where
  "isalpha c = (let n = (of_char c :: nat) in (65 \<le> n \<and> n \<le> 90) \<or> (97 \<le> n \<and> n \<le> 122))"

definition isalnum :: "char \<Rightarrow> bool" where
  "isalnum c = (isalpha c \<or> isdigit c)"

subsection \<open>Tokens\<close>

datatype TokenType =
  KEYWORD | IDENTIFIER | NUMBER | OPERATOR | PUNCTUATION | STRING_LITERAL | END_OF_FILE | UNKNOWN

text \<open>The struct \<^verbatim>\<open>Token\<close>; its fields carry the suffix \<open>_tok\<close> because the tokenizer has
  fields \<^verbatim>\<open>line\<close> and \<^verbatim>\<open>column\<close> of its own.\<close>

record Token =
  type_tok :: TokenType
  value_tok :: string
  line_tok :: int32
  column_tok :: int32

subsection \<open>The tokenizer state and its primitive operations\<close>

record Tokenizer =
  source :: string
  pos :: nat
  line :: int32
  column :: int32

text \<open>The constructor \<^verbatim>\<open>Tokenizer(src)\<close>.\<close>

definition Tokenizer_init :: "string \<Rightarrow> Tokenizer" where
  "Tokenizer_init src = \<lparr>source = src, pos = 0, line = 1, column = 1\<rparr>"

definition keywords_set :: "string list" where
  "keywords_set =
    [''auto'', ''break'', ''case'', ''char'', ''const'', ''continue'', ''default'',
     ''do'', ''double'', ''else'', ''enum'', ''extern'', ''float'', ''for'', ''goto'',
     ''if'', ''int'', ''long'', ''register'', ''return'', ''short'', ''signed'',
     ''sizeof'', ''static'', ''struct'', ''switch'', ''typedef'', ''union'',
     ''unsigned'', ''void'', ''volatile'', ''while'', ''class'', ''namespace'',
     ''public'', ''private'', ''protected'', ''virtual'', ''bool'', ''true'', ''false'']"

definition peek :: "Tokenizer \<Rightarrow> nat \<Rightarrow> char" where
  "peek t offset =
    (if pos t + offset \<ge> length (source t) then NUL else source t ! (pos t + offset))"

definition advance :: "Tokenizer \<Rightarrow> char \<times> Tokenizer" where
  "advance t =
    (if pos t \<ge> length (source t) then (NUL, t)
     else (let c = source t ! pos t; t1 = t\<lparr>pos := pos t + 1\<rparr> in
           if c = NEWLINE then (c, t1\<lparr>line := line t1 + 1, column := 1\<rparr>)
           else (c, t1\<lparr>column := column t1 + 1\<rparr>)))"

lemma source_advance [simp]: "source (snd (advance t)) = source t"
  by (simp add: advance_def Let_def)

lemma pos_advance:
  "pos (snd (advance t)) = (if pos t < length (source t) then pos t + 1 else pos t)"
  by (simp add: advance_def Let_def)

lemma peek_nonzero_in_range: "peek t 0 \<noteq> NUL \<Longrightarrow> pos t < length (source t)"
  by (simp add: peek_def split: if_splits)

lemma isdigit_not_NUL: "isdigit c \<Longrightarrow> c \<noteq> NUL"
  by (auto simp: isdigit_def)

lemma isalpha_not_NUL: "isalpha c \<Longrightarrow> c \<noteq> NUL"
  by (auto simp: isalpha_def)

lemma isalnum_not_NUL: "isalnum c \<Longrightarrow> c \<noteq> NUL"
  by (auto simp: isalnum_def dest: isalpha_not_NUL isdigit_not_NUL)

lemma advance_measure:
  "peek t 0 \<noteq> NUL \<Longrightarrow>
   length (source t) - pos (snd (advance t)) < length (source t) - pos t"
  by (frule peek_nonzero_in_range) (simp add: pos_advance)

lemma advance_pair_measure:
  assumes "advance t = (c, t1)" and "peek t 0 \<noteq> NUL"
  shows "length (source t1) - pos t1 < length (source t) - pos t"
proof -
  from assms(1) have "t1 = snd (advance t)" by simp
  with advance_measure [OF assms(2)] show ?thesis by simp
qed

subsection \<open>Whitespace and comments\<close>

function skipWhitespace :: "Tokenizer \<Rightarrow> Tokenizer" where
  "skipWhitespace t =
    (if pos t < length (source t) \<and> isspace (peek t 0)
     then skipWhitespace (snd (advance t)) else t)"
  by pat_completeness auto
termination
  by (relation "measure (\<lambda>t. length (source t) - pos t)") (auto simp: pos_advance)

declare skipWhitespace.simps [simp del]

text \<open>The loop of the \<^verbatim>\<open>//\<close> branch of \<^verbatim>\<open>skipComments\<close>.\<close>

function skipComments_line :: "Tokenizer \<Rightarrow> Tokenizer" where
  "skipComments_line t =
    (if peek t 0 \<noteq> NEWLINE \<and> peek t 0 \<noteq> NUL
     then skipComments_line (snd (advance t)) else t)"
  by pat_completeness auto
termination
  by (relation "measure (\<lambda>t. length (source t) - pos t)") (auto simp: advance_measure)

declare skipComments_line.simps [simp del]

text \<open>The loop of the \<^verbatim>\<open>/*\<close> branch of \<^verbatim>\<open>skipComments\<close>.\<close>

function skipComments_block :: "Tokenizer \<Rightarrow> Tokenizer" where
  "skipComments_block t =
    (if \<not> (peek t 0 = CHR ''*'' \<and> peek t 1 = CHR ''/'') \<and> peek t 0 \<noteq> NUL
     then skipComments_block (snd (advance t)) else t)"
  by pat_completeness auto
termination
  by (relation "measure (\<lambda>t. length (source t) - pos t)") (auto simp: advance_measure)

declare skipComments_block.simps [simp del]

definition skipComments :: "Tokenizer \<Rightarrow> Tokenizer" where
  "skipComments t =
    (if peek t 0 = CHR ''/'' \<and> peek t 1 = CHR ''/'' then skipComments_line t
     else if peek t 0 = CHR ''/'' \<and> peek t 1 = CHR ''*'' then
       (let t1 = snd (advance t);
            t2 = snd (advance t1);
            t3 = skipComments_block t2
        in if peek t3 0 \<noteq> NUL then snd (advance (snd (advance t3))) else t3)
     else t)"

subsection \<open>The sub-scanners\<close>

function readIdentifierOrKeyword_loop :: "Tokenizer \<Rightarrow> string \<Rightarrow> string \<times> Tokenizer" where
  "readIdentifierOrKeyword_loop t v =
    (if isalnum (peek t 0) \<or> peek t 0 = CHR ''_''
     then (let (c, t1) = advance t in readIdentifierOrKeyword_loop t1 (v @ [c]))
     else (v, t))"
  by pat_completeness auto
termination
proof (relation "measure (\<lambda>(t, v). length (source t) - pos t)", goal_cases)
  case 1
  show ?case by simp
next
  case (2 t v x c t1)
  then have "peek t 0 \<noteq> NUL" by (auto dest: isalnum_not_NUL)
  with 2 show ?case
    by (auto dest: advance_pair_measure [OF sym])
qed

declare readIdentifierOrKeyword_loop.simps [simp del]

definition readIdentifierOrKeyword :: "Tokenizer \<Rightarrow> Token \<times> Tokenizer" where
  "readIdentifierOrKeyword t =
    (let startLine = line t; startCol = column t;
         (v, t1) = readIdentifierOrKeyword_loop t [];
         ty = (if v \<in> set keywords_set then KEYWORD else IDENTIFIER)
     in (\<lparr>type_tok = ty, value_tok = v, line_tok = startLine, column_tok = startCol\<rparr>, t1))"

function readNumber_loop :: "Tokenizer \<Rightarrow> string \<Rightarrow> string \<times> Tokenizer" where
  "readNumber_loop t v =
    (if isdigit (peek t 0) \<or> peek t 0 = CHR ''.''
     then (let (c, t1) = advance t in readNumber_loop t1 (v @ [c]))
     else (v, t))"
  by pat_completeness auto
termination
proof (relation "measure (\<lambda>(t, v). length (source t) - pos t)", goal_cases)
  case 1
  show ?case by simp
next
  case (2 t v x c t1)
  then have "peek t 0 \<noteq> NUL" by (auto dest: isdigit_not_NUL)
  with 2 show ?case
    by (auto dest: advance_pair_measure [OF sym])
qed

declare readNumber_loop.simps [simp del]

definition readNumber :: "Tokenizer \<Rightarrow> Token \<times> Tokenizer" where
  "readNumber t =
    (let startLine = line t; startCol = column t;
         (v, t1) = readNumber_loop t []
     in (\<lparr>type_tok = NUMBER, value_tok = v, line_tok = startLine, column_tok = startCol\<rparr>, t1))"

function readString_loop :: "Tokenizer \<Rightarrow> string \<Rightarrow> string \<times> Tokenizer" where
  "readString_loop t v =
    (if peek t 0 \<noteq> DQUOTE \<and> peek t 0 \<noteq> NUL then
       (if peek t 0 = BACKSLASH then
          (let t1 = snd (advance t) in
           if peek t1 0 \<noteq> NUL
           then (let (c, t2) = advance t1 in readString_loop t2 (v @ [c]))
           else readString_loop t1 v)
        else (let (c, t1) = advance t in readString_loop t1 (v @ [c])))
     else (v, t))"
  by pat_completeness auto
termination
proof (relation "measure (\<lambda>(t, v). length (source t) - pos t)", goal_cases)
  case 1
  show ?case by simp
next
  case (2 t v t1 x c t2)
  from 2 have "length (source t) - pos t1 < length (source t) - pos t"
    by (simp add: advance_measure)
  moreover from 2 have "length (source t2) - pos t2 < length (source t1) - pos t1"
    by (auto dest: advance_pair_measure [OF sym])
  moreover from 2 have "source t1 = source t" by simp
  ultimately show ?case by simp
next
  case (3 t v t1)
  then show ?case by (simp add: advance_measure)
next
  case (4 t v x c t1)
  then show ?case by (auto dest: advance_pair_measure [OF sym])
qed

declare readString_loop.simps [simp del]

definition readString :: "Tokenizer \<Rightarrow> Token \<times> Tokenizer" where
  "readString t =
    (let startLine = line t; startCol = column t;
         t1 = snd (advance t);
         (v, t2) = readString_loop t1 [];
         t3 = (if peek t2 0 = DQUOTE then snd (advance t2) else t2)
     in (\<lparr>type_tok = STRING_LITERAL, value_tok = v, line_tok = startLine,
          column_tok = startCol\<rparr>, t3))"

definition readOperator :: "Tokenizer \<Rightarrow> Token \<times> Tokenizer" where
  "readOperator t =
    (let startLine = line t; startCol = column t;
         c = peek t 0; next = peek t 1;
         (v, t2) =
           (if (c = CHR ''='' \<and> next = CHR ''='') \<or>
               (c = CHR ''!'' \<and> next = CHR ''='') \<or>
               (c = CHR ''<'' \<and> next = CHR ''='') \<or>
               (c = CHR ''>'' \<and> next = CHR ''='') \<or>
               (c = CHR ''+'' \<and> next = CHR ''+'') \<or>
               (c = CHR ''-'' \<and> next = CHR ''-'') \<or>
               (c = CHR ''&'' \<and> next = CHR ''&'') \<or>
               (c = CHR ''|'' \<and> next = CHR ''|'') \<or>
               (c = CHR ''-'' \<and> next = CHR ''>'') \<or>
               (c = CHR '':'' \<and> next = CHR '':'')
            then (let (c1, t1) = advance t; (c2, t2) = advance t1 in ([c1, c2], t2))
            else (let (c1, t1) = advance t in ([c1], t1)))
     in (\<lparr>type_tok = OPERATOR, value_tok = v, line_tok = startLine,
          column_tok = startCol\<rparr>, t2))"

subsection \<open>The dispatch loop\<close>

text \<open>The body of the loop of \<^verbatim>\<open>tokenize\<close> from \<^verbatim>\<open>char c = peek()\<close> on: the classification of
  the current character and the call of one sub-scanner. It returns the token that the
  source pushes onto \<^verbatim>\<open>tokens\<close>.\<close>

definition tokenize_dispatch :: "Tokenizer \<Rightarrow> Token \<times> Tokenizer" where
  "tokenize_dispatch t =
    (let c = peek t 0; startLine = line t; startCol = column t in
     if isalpha c \<or> c = CHR ''_'' then readIdentifierOrKeyword t
     else if isdigit c then readNumber t
     else if c = DQUOTE then readString t
     else if c = CHR '';'' \<or> c = CHR '','' \<or> c = CHR ''('' \<or> c = CHR '')'' \<or>
             c = CHR ''{'' \<or> c = CHR ''}'' \<or> c = CHR ''['' \<or> c = CHR '']'' then
       (let (c1, t1) = advance t in
        (\<lparr>type_tok = PUNCTUATION, value_tok = [c1], line_tok = startLine,
          column_tok = startCol\<rparr>, t1))
     else if c = CHR ''+'' \<or> c = CHR ''-'' \<or> c = CHR ''*'' \<or> c = CHR ''/'' \<or>
             c = CHR ''='' \<or> c = CHR ''<'' \<or> c = CHR ''>'' \<or> c = CHR ''!'' \<or>
             c = CHR ''&'' \<or> c = CHR ''|'' \<or> c = CHR '':'' then readOperator t
     else
       (let (c1, t1) = advance t in
        (\<lparr>type_tok = UNKNOWN, value_tok = [c1], line_tok = startLine,
          column_tok = startCol\<rparr>, t1)))"

subsection \<open>The position rule and the cursor\<close>

text \<open>The position rule of the cursor, written on its own, in the 32-bit arithmetic of
  the program: from position \<open>(l, k)\<close>, a newline leads to \<open>(l + 1, 1)\<close> and any other
  character to \<open>(l, k + 1)\<close>. \<open>walk cs (l, k)\<close> is the position after the characters
  \<open>cs\<close>.\<close>

fun walk :: "string \<Rightarrow> int32 \<times> int32 \<Rightarrow> int32 \<times> int32" where
  "walk [] p = p"
| "walk (c # cs) p = walk cs (if c = NEWLINE then (fst p + 1, 1) else (fst p, snd p + 1))"

text \<open>The input that is still to be read, and the state after reading \<open>n\<close> more
  characters of it.\<close>

definition rest :: "Tokenizer \<Rightarrow> string" where
  "rest t = drop (pos t) (source t)"

definition forward :: "Tokenizer \<Rightarrow> nat \<Rightarrow> Tokenizer" where
  "forward t n =
    (let p = walk (take n (rest t)) (line t, column t)
     in t\<lparr>pos := pos t + n, line := fst p, column := snd p\<rparr>)"

text \<open>\<open>steps_forward t t'\<close>: the state \<open>t'\<close> is \<open>t\<close> after reading some of the
  remaining input and nothing else. Every operation of the tokenizer relates its argument
  to its result in this way; the termination of the dispatch loop rests on it.\<close>

definition steps_forward :: "Tokenizer \<Rightarrow> Tokenizer \<Rightarrow> bool" where
  "steps_forward t t' \<longleftrightarrow>
     pos t \<le> pos t' \<and> pos t' - pos t \<le> length (rest t) \<and> t' = forward t (pos t' - pos t)"

lemma walk_append: "walk (xs @ ys) p = walk ys (walk xs p)"
  by (induction xs arbitrary: p) simp_all

lemma forward_0 [simp]: "forward t 0 = t"
  by (simp add: forward_def)

lemma source_forward [simp]: "source (forward t n) = source t"
  by (simp add: forward_def Let_def)

lemma pos_forward [simp]: "pos (forward t n) = pos t + n"
  by (simp add: forward_def Let_def)

lemma rest_forward [simp]: "rest (forward t n) = drop n (rest t)"
  by (simp add: rest_def add.commute)

lemma position_forward:
  "(line (forward t n), column (forward t n)) = walk (take n (rest t)) (line t, column t)"
  by (simp add: forward_def Let_def)

lemma forward_forward: "forward (forward t n) m = forward t (n + m)"
proof -
  have "walk (take (n + m) (rest t)) (line t, column t)
        = walk (take m (rest (forward t n))) (line (forward t n), column (forward t n))"
    by (simp add: take_add walk_append position_forward)
  then show ?thesis
    by (simp add: forward_def [of "forward t n"] forward_def [of t "n + m"] Let_def)
qed

lemma steps_forwardI:
  "n \<le> length (rest t) \<Longrightarrow> t' = forward t n \<Longrightarrow> steps_forward t t'"
  by (simp add: steps_forward_def)

lemma steps_forwardD:
  "steps_forward t t' \<Longrightarrow> \<exists>n\<le>length (rest t). t' = forward t n"
  by (auto simp: steps_forward_def)

lemma steps_forward_source: "steps_forward t t' \<Longrightarrow> source t' = source t"
  by (auto dest: steps_forwardD)

lemma steps_forward_pos: "steps_forward t t' \<Longrightarrow> pos t \<le> pos t'"
  by (simp add: steps_forward_def)

lemma steps_forward_bound:
  "steps_forward t t' \<Longrightarrow> pos t \<le> length (source t) \<Longrightarrow> pos t' \<le> length (source t)"
  by (auto simp: rest_def dest!: steps_forwardD)

lemma steps_forward_refl: "steps_forward t t"
  by (rule steps_forwardI [of 0]) simp_all

lemma steps_forward_trans:
  assumes "steps_forward t t1" and "steps_forward t1 t2"
  shows "steps_forward t t2"
proof -
  from assms(1) obtain n where n: "n \<le> length (rest t)" "t1 = forward t n"
    by (auto dest: steps_forwardD)
  from assms(2) obtain m where m: "m \<le> length (rest t1)" "t2 = forward t1 m"
    by (auto dest: steps_forwardD)
  from n m have "n + m \<le> length (rest t)" by simp
  moreover from n m have "t2 = forward t (n + m)" by (simp add: forward_forward)
  ultimately show ?thesis by (rule steps_forwardI)
qed

lemma advance_forward:
  "advance t = (if pos t < length (source t) then (source t ! pos t, forward t 1) else (NUL, t))"
  by (simp add: advance_def forward_def rest_def Let_def take_Suc_conv_app_nth hd_drop_conv_nth
      take_Suc)

lemma steps_forward_advance: "steps_forward t (snd (advance t))"
proof (cases "pos t < length (source t)")
  case True
  then have "snd (advance t) = forward t 1" by (simp add: advance_forward)
  moreover from True have "1 \<le> length (rest t)" by (simp add: rest_def)
  ultimately show ?thesis by (rule steps_forwardI [rotated])
next
  case False
  then show ?thesis by (simp add: advance_forward steps_forward_refl)
qed

lemma steps_forward_advance_pair: "advance t = (c, t1) \<Longrightarrow> steps_forward t t1"
  using steps_forward_advance [of t] by simp

subsection \<open>Progress of the sub-scanners, and the loop of \<^verbatim>\<open>tokenize\<close>\<close>

lemma skipWhitespace_forward: "steps_forward t (skipWhitespace t)"
proof (induction t rule: skipWhitespace.induct)
  case (1 t)
  show ?case
  proof (cases "pos t < length (source t) \<and> isspace (peek t 0)")
    case True
    with 1 have "steps_forward (snd (advance t)) (skipWhitespace (snd (advance t)))" by simp
    with steps_forward_advance have "steps_forward t (skipWhitespace (snd (advance t)))"
      by (rule steps_forward_trans)
    with True show ?thesis by (simp add: skipWhitespace.simps [of t])
  next
    case False
    then show ?thesis by (auto simp: skipWhitespace.simps [of t] steps_forward_refl)
  qed
qed

lemma skipComments_line_forward: "steps_forward t (skipComments_line t)"
proof (induction t rule: skipComments_line.induct)
  case (1 t)
  show ?case
  proof (cases "peek t 0 \<noteq> NEWLINE \<and> peek t 0 \<noteq> NUL")
    case True
    with 1 have "steps_forward (snd (advance t)) (skipComments_line (snd (advance t)))" by simp
    with steps_forward_advance have "steps_forward t (skipComments_line (snd (advance t)))"
      by (rule steps_forward_trans)
    with True show ?thesis by (simp add: skipComments_line.simps [of t])
  next
    case False
    then show ?thesis by (auto simp: skipComments_line.simps [of t] steps_forward_refl)
  qed
qed

lemma skipComments_block_forward: "steps_forward t (skipComments_block t)"
proof (induction t rule: skipComments_block.induct)
  case (1 t)
  show ?case
  proof (cases "\<not> (peek t 0 = CHR ''*'' \<and> peek t 1 = CHR ''/'') \<and> peek t 0 \<noteq> NUL")
    case True
    with 1 have "steps_forward (snd (advance t)) (skipComments_block (snd (advance t)))" by simp
    with steps_forward_advance have "steps_forward t (skipComments_block (snd (advance t)))"
      by (rule steps_forward_trans)
    with True show ?thesis by (simp add: skipComments_block.simps [of t])
  next
    case False
    then show ?thesis by (auto simp: skipComments_block.simps [of t] steps_forward_refl)
  qed
qed

lemma skipComments_forward: "steps_forward t (skipComments t)"
proof -
  let ?t2 = "snd (advance (snd (advance t)))"
  let ?t3 = "skipComments_block ?t2"
  have a: "steps_forward t ?t2"
    by (rule steps_forward_trans [OF steps_forward_advance steps_forward_advance])
  have b: "steps_forward t ?t3"
    by (rule steps_forward_trans [OF a skipComments_block_forward])
  have c: "steps_forward ?t3 (snd (advance (snd (advance ?t3))))"
    by (rule steps_forward_trans [OF steps_forward_advance steps_forward_advance])
  have d: "steps_forward t (snd (advance (snd (advance ?t3))))"
    by (rule steps_forward_trans [OF b c])
  show ?thesis
    unfolding skipComments_def Let_def
    using b d skipComments_line_forward [of t] steps_forward_refl [of t] by simp
qed

lemma readIdentifierOrKeyword_loop_forward:
  "steps_forward t (snd (readIdentifierOrKeyword_loop t v))"
proof (induction t v rule: readIdentifierOrKeyword_loop.induct)
  case (1 t v)
  obtain c t1 where a: "advance t = (c, t1)" by (cases "advance t")
  show ?case
  proof (cases "isalnum (peek t 0) \<or> peek t 0 = CHR ''_''")
    case True
    with 1 a have "steps_forward t1 (snd (readIdentifierOrKeyword_loop t1 (v @ [c])))" by simp
    with steps_forward_advance_pair [OF a]
    have "steps_forward t (snd (readIdentifierOrKeyword_loop t1 (v @ [c])))"
      by (rule steps_forward_trans)
    with True a show ?thesis by (simp add: readIdentifierOrKeyword_loop.simps [of t])
  next
    case False
    then show ?thesis
      by (auto simp: readIdentifierOrKeyword_loop.simps [of t] steps_forward_refl)
  qed
qed

lemma readNumber_loop_forward: "steps_forward t (snd (readNumber_loop t v))"
proof (induction t v rule: readNumber_loop.induct)
  case (1 t v)
  obtain c t1 where a: "advance t = (c, t1)" by (cases "advance t")
  show ?case
  proof (cases "isdigit (peek t 0) \<or> peek t 0 = CHR ''.''")
    case True
    with 1 a have "steps_forward t1 (snd (readNumber_loop t1 (v @ [c])))" by simp
    with steps_forward_advance_pair [OF a]
    have "steps_forward t (snd (readNumber_loop t1 (v @ [c])))"
      by (rule steps_forward_trans)
    with True a show ?thesis by (simp add: readNumber_loop.simps [of t])
  next
    case False
    then show ?thesis by (auto simp: readNumber_loop.simps [of t] steps_forward_refl)
  qed
qed

lemma readString_loop_forward: "steps_forward t (snd (readString_loop t v))"
proof (induction t v rule: readString_loop.induct)
  case (1 t v)
  let ?t1 = "snd (advance t)"
  obtain c t2 where a: "advance ?t1 = (c, t2)" by (cases "advance ?t1")
  obtain d t1' where b: "advance t = (d, t1')" by (cases "advance t")
  have s1: "steps_forward t ?t1" by (rule steps_forward_advance)
  have s2: "steps_forward t t2"
    by (rule steps_forward_trans [OF s1 steps_forward_advance_pair [OF a]])
  consider (stop) "\<not> (peek t 0 \<noteq> DQUOTE \<and> peek t 0 \<noteq> NUL)"
    | (esc) "peek t 0 \<noteq> DQUOTE" "peek t 0 \<noteq> NUL" "peek t 0 = BACKSLASH" "peek ?t1 0 \<noteq> NUL"
    | (esc_end) "peek t 0 \<noteq> DQUOTE" "peek t 0 \<noteq> NUL" "peek t 0 = BACKSLASH" "peek ?t1 0 = NUL"
    | (plain) "peek t 0 \<noteq> DQUOTE" "peek t 0 \<noteq> NUL" "peek t 0 \<noteq> BACKSLASH"
    by blast
  then show ?case
  proof cases
    case stop
    then show ?thesis by (auto simp: readString_loop.simps [of t] steps_forward_refl)
  next
    case esc
    with 1(1) a have "steps_forward t2 (snd (readString_loop t2 (v @ [c])))" by simp
    with s2 have "steps_forward t (snd (readString_loop t2 (v @ [c])))"
      by (rule steps_forward_trans)
    with esc a show ?thesis by (simp add: readString_loop.simps [of t])
  next
    case esc_end
    with 1(2) have "steps_forward ?t1 (snd (readString_loop ?t1 v))" by simp
    with s1 have "steps_forward t (snd (readString_loop ?t1 v))"
      by (rule steps_forward_trans)
    with esc_end show ?thesis by (simp add: readString_loop.simps [of t])
  next
    case plain
    with 1(3) b have "steps_forward t1' (snd (readString_loop t1' (v @ [d])))" by simp
    with steps_forward_advance_pair [OF b]
    have "steps_forward t (snd (readString_loop t1' (v @ [d])))"
      by (rule steps_forward_trans)
    with plain b show ?thesis by (simp add: readString_loop.simps [of t])
  qed
qed

lemma steps_forward_strict:
  "pos t < length (source t) \<Longrightarrow> steps_forward (snd (advance t)) t' \<Longrightarrow>
   source t' = source t \<and> pos t < pos t'"
  using steps_forward_source [of "snd (advance t)" t'] steps_forward_pos [of "snd (advance t)" t']
  by (simp add: pos_advance)

lemma readIdentifierOrKeyword_progress:
  assumes "pos t < length (source t)" and "isalpha (peek t 0) \<or> peek t 0 = CHR ''_''"
  shows "source (snd (readIdentifierOrKeyword t)) = source t \<and>
         pos t < pos (snd (readIdentifierOrKeyword t))"
proof -
  obtain c t1 where a: "advance t = (c, t1)" by (cases "advance t")
  from assms(2) have "isalnum (peek t 0) \<or> peek t 0 = CHR ''_''" by (auto simp: isalnum_def)
  with a have "readIdentifierOrKeyword_loop t [] = readIdentifierOrKeyword_loop t1 [c]"
    by (simp add: readIdentifierOrKeyword_loop.simps [of t])
  moreover have "steps_forward (snd (advance t)) (snd (readIdentifierOrKeyword_loop t1 [c]))"
    using a readIdentifierOrKeyword_loop_forward [of t1 "[c]"] by simp
  ultimately show ?thesis
    using steps_forward_strict [OF assms(1)]
    by (simp add: readIdentifierOrKeyword_def Let_def case_prod_unfold)
qed

lemma readNumber_progress:
  assumes "pos t < length (source t)" and "isdigit (peek t 0)"
  shows "source (snd (readNumber t)) = source t \<and> pos t < pos (snd (readNumber t))"
proof -
  obtain c t1 where a: "advance t = (c, t1)" by (cases "advance t")
  from assms(2) a have "readNumber_loop t [] = readNumber_loop t1 [c]"
    by (simp add: readNumber_loop.simps [of t])
  moreover have "steps_forward (snd (advance t)) (snd (readNumber_loop t1 [c]))"
    using a readNumber_loop_forward [of t1 "[c]"] by simp
  ultimately show ?thesis
    using steps_forward_strict [OF assms(1)]
    by (simp add: readNumber_def Let_def case_prod_unfold)
qed

lemma readString_progress:
  assumes "pos t < length (source t)"
  shows "source (snd (readString t)) = source t \<and> pos t < pos (snd (readString t))"
proof -
  let ?t1 = "snd (advance t)"
  let ?t2 = "snd (readString_loop ?t1 [])"
  have a: "steps_forward ?t1 ?t2" by (rule readString_loop_forward)
  have b: "steps_forward ?t1 (snd (advance ?t2))"
    by (rule steps_forward_trans [OF a steps_forward_advance])
  have "snd (readString t) = (if peek ?t2 0 = DQUOTE then snd (advance ?t2) else ?t2)"
    by (simp add: readString_def Let_def case_prod_unfold)
  with a b show ?thesis
    using steps_forward_strict [OF assms] by simp
qed

lemma readOperator_progress:
  assumes "pos t < length (source t)"
  shows "source (snd (readOperator t)) = source t \<and> pos t < pos (snd (readOperator t))"
proof -
  let ?t1 = "snd (advance t)"
  have a: "steps_forward ?t1 ?t1" by (rule steps_forward_refl)
  have b: "steps_forward ?t1 (snd (advance ?t1))" by (rule steps_forward_advance)
  have "snd (readOperator t) = ?t1 \<or> snd (readOperator t) = snd (advance ?t1)"
    by (simp add: readOperator_def Let_def case_prod_unfold)
  with a b show ?thesis
    using steps_forward_strict [OF assms] by auto
qed

lemma tokenize_dispatch_progress:
  assumes "pos t < length (source t)"
  shows "source (snd (tokenize_dispatch t)) = source t \<and>
         pos t < pos (snd (tokenize_dispatch t))"
proof -
  have "source (snd (advance t)) = source t \<and> pos t < pos (snd (advance t))"
    using assms by (simp add: pos_advance)
  then show ?thesis
    using readIdentifierOrKeyword_progress [OF assms] readNumber_progress [OF assms]
      readString_progress [OF assms] readOperator_progress [OF assms]
    by (simp add: tokenize_dispatch_def Let_def case_prod_unfold)
qed

function tokenize_loop :: "Tokenizer \<Rightarrow> Token list \<Rightarrow> Token list \<times> Tokenizer" where
  "tokenize_loop t tokens =
    (if pos t < length (source t) then
       (let t1 = skipComments (skipWhitespace t) in
        if pos t1 \<ge> length (source t1) then (tokens, t1)
        else (let (tok, t2) = tokenize_dispatch t1 in tokenize_loop t2 (tokens @ [tok])))
     else (tokens, t))"
  by pat_completeness auto
termination
proof (relation "measure (\<lambda>(t, tokens). length (source t) - pos t)", goal_cases)
  case 1
  show ?case by simp
next
  case (2 t tokens t1 x tok t2)
  have "steps_forward t t1"
    unfolding 2(2)
    by (rule steps_forward_trans [OF skipWhitespace_forward skipComments_forward])
  moreover from 2 have "pos t1 < length (source t1)" by simp
  from tokenize_dispatch_progress [OF this] 2(4,5)
  have "source t2 = source t1 \<and> pos t1 < pos t2" by (metis snd_conv)
  ultimately show ?case
    using 2(1) steps_forward_source [of t t1] steps_forward_pos [of t t1] by auto
qed

declare tokenize_loop.simps [simp del]

text \<open>The member function \<^verbatim>\<open>tokenize\<close>: it returns the tokens and leaves the cursor where
  the loop stopped.\<close>

definition tokenize :: "Tokenizer \<Rightarrow> Token list \<times> Tokenizer" where
  "tokenize t0 =
    (let (tokens, t) = tokenize_loop t0 [] in
     (tokens @ [\<lparr>type_tok = END_OF_FILE, value_tok = [], line_tok = line t,
                  column_tok = column t\<rparr>], t))"

text \<open>Constructing a tokenizer on a source and calling \<^verbatim>\<open>tokenize\<close> once, as \<^verbatim>\<open>main\<close> does.\<close>

definition tokenize_source :: "string \<Rightarrow> Token list" where
  "tokenize_source src = fst (tokenize (Tokenizer_init src))"

section \<open>Describing the scanners on the remaining input\<close>

text \<open>The definitions of this section are not code of the program. They say, on plain
  lists of characters, what the sub-scanners read; the lemmas below relate the program to
  them, and the claims are stated with them.\<close>

subsection \<open>Character classes and tables\<close>

text \<open>The characters of an identifier after its first one, and the characters of a
  number.\<close>

definition ident_char :: "char \<Rightarrow> bool" where
  "ident_char c = (isalnum c \<or> c = CHR ''_'')"

definition number_char :: "char \<Rightarrow> bool" where
  "number_char c = (isdigit c \<or> c = CHR ''.'')"

text \<open>The characters that the dispatch sends to the operator sub-scanner, the punctuation
  characters, and the table of the two-character operators.\<close>

definition operator_chars :: "char list" where
  "operator_chars = ''+-*/=<>!&|:''"

definition punctuation_chars :: "char list" where
  "punctuation_chars = '';,(){}[]''"

definition two_char_operators :: "string list" where
  "two_char_operators =
     [''=='', ''!='', ''<='', ''>='', ''++'', ''--'', ''&&'', ''||'', ''->'', ''::'']"

text \<open>The character after the current one, as \<^verbatim>\<open>peek(1)\<close> reports it: \<open>cs\<close> is the input
  behind the current character, and the byte 0 stands for its end.\<close>

definition lookahead :: "string \<Rightarrow> char" where
  "lookahead cs = (case cs of [] \<Rightarrow> NUL | d # _ \<Rightarrow> d)"

subsection \<open>String literals\<close>

text \<open>The body of a string literal as the claims word it, on the input behind the opening
  quote: the text ends at the first quote that no backslash precedes, or with the input; a
  backslash is dropped and the character behind it is kept, whatever it is.\<close>

fun spec_string_text :: "string \<Rightarrow> string" where
  "spec_string_text [] = []"
| "spec_string_text (c # cs) =
    (if c = DQUOTE then []
     else if c = BACKSLASH then
       (case cs of [] \<Rightarrow> [] | d # ds \<Rightarrow> d # spec_string_text ds)
     else c # spec_string_text cs)"

text \<open>The same with the byte 0 taken for the end of the input, where it stands alone and
  where it follows a backslash: \<open>string_text\<close> is the text of the literal,
  \<open>string_len\<close> the number of characters read behind the opening quote and in
  front of the closing one, and \<open>string_closed\<close> tells whether a closing quote ends the
  literal.\<close>

fun string_text :: "string \<Rightarrow> string" where
  "string_text [] = []"
| "string_text (c # cs) =
    (if c = DQUOTE \<or> c = NUL then []
     else if c = BACKSLASH then
       (case cs of [] \<Rightarrow> [] | d # ds \<Rightarrow> if d = NUL then [] else d # string_text ds)
     else c # string_text cs)"

fun string_len :: "string \<Rightarrow> nat" where
  "string_len [] = 0"
| "string_len (c # cs) =
    (if c = DQUOTE \<or> c = NUL then 0
     else if c = BACKSLASH then
       (case cs of [] \<Rightarrow> 1 | d # ds \<Rightarrow> if d = NUL then 1 else 2 + string_len ds)
     else 1 + string_len cs)"

fun string_closed :: "string \<Rightarrow> bool" where
  "string_closed [] = False"
| "string_closed (c # cs) =
    (if c = DQUOTE then True
     else if c = NUL then False
     else if c = BACKSLASH then
       (case cs of [] \<Rightarrow> False | d # ds \<Rightarrow> if d = NUL then False else string_closed ds)
     else string_closed cs)"

subsection \<open>Positions\<close>

text \<open>The position rule in the integers, as the claims word it: from position \<open>(l, k)\<close>,
  a newline leads to \<open>(l + 1, 1)\<close> and any other character to \<open>(l, k + 1)\<close>, with no
  bound. \<^const>\<open>walk\<close> is the same rule in the 32-bit arithmetic of the program.\<close>

fun position :: "string \<Rightarrow> int \<times> int \<Rightarrow> int \<times> int" where
  "position [] p = p"
| "position (c # cs) p =
     position cs (if c = NEWLINE then (fst p + 1, 1) else (fst p, snd p + 1))"

subsection \<open>Lexemes\<close>

text \<open>The lexeme of the token \<open>tok\<close> starts at offset \<open>i\<close> of the source: a string
  literal starts with its opening quote and its text is the body behind it; the text of
  any other token is not empty and is the source from \<open>i\<close> on.\<close>

definition lexeme_at :: "string \<Rightarrow> nat \<Rightarrow> Token \<Rightarrow> bool" where
  "lexeme_at src i tok \<longleftrightarrow>
     i < length src \<and>
     (if type_tok tok = STRING_LITERAL
      then src ! i = DQUOTE \<and> value_tok tok = string_text (drop (Suc i) src)
      else value_tok tok \<noteq> [] \<and> take (length (value_tok tok)) (drop i src) = value_tok tok)"

section \<open>The program and its description\<close>

subsection \<open>The cursor and the remaining input\<close>

lemma rest_Cons_nth:
  "pos t < length (source t) \<Longrightarrow> rest t = source t ! pos t # drop (Suc (pos t)) (source t)"
  by (simp add: rest_def Cons_nth_drop_Suc)

lemma rest_Nil: "\<not> pos t < length (source t) \<Longrightarrow> rest t = []"
  by (simp add: rest_def)

lemma peek0_rest: "peek t 0 = (case rest t of [] \<Rightarrow> NUL | c # _ \<Rightarrow> c)"
proof (cases "pos t < length (source t)")
  case True
  then show ?thesis by (simp add: rest_Cons_nth peek_def)
next
  case False
  then show ?thesis by (simp add: rest_Nil peek_def)
qed

lemma peek1_rest: "peek t 1 = (case rest t of c # d # _ \<Rightarrow> d | _ \<Rightarrow> NUL)"
proof -
  consider (two) "Suc (pos t) < length (source t)"
    | (one) "pos t < length (source t)" "\<not> Suc (pos t) < length (source t)"
    | (none) "\<not> pos t < length (source t)"
    by linarith
  then show ?thesis
  proof cases
    case two
    then have "rest t = source t ! pos t # source t ! Suc (pos t) # drop (Suc (Suc (pos t))) (source t)"
      by (simp add: rest_def Cons_nth_drop_Suc Suc_lessD)
    with two show ?thesis by (simp add: peek_def)
  next
    case one
    then have "rest t = [source t ! pos t]" by (simp add: rest_Cons_nth)
    with one show ?thesis by (simp add: peek_def)
  next
    case none
    then show ?thesis by (simp add: rest_Nil peek_def)
  qed
qed

lemma advance_rest:
  "advance t = (case rest t of [] \<Rightarrow> (NUL, t) | c # _ \<Rightarrow> (c, forward t 1))"
proof (cases "pos t < length (source t)")
  case True
  then show ?thesis by (simp add: rest_Cons_nth advance_forward)
next
  case False
  then show ?thesis by (simp add: rest_Nil advance_forward)
qed

lemma peek0_Nil [simp]: "rest t = [] \<Longrightarrow> peek t 0 = NUL"
  by (simp add: peek0_rest)

lemma peek0_Cons [simp]: "rest t = c # cs \<Longrightarrow> peek t 0 = c"
  by (simp add: peek0_rest)

lemma peek1_Cons [simp]:
  "rest t = c # cs \<Longrightarrow> peek t (Suc 0) = (case cs of [] \<Rightarrow> NUL | d # _ \<Rightarrow> d)"
  using peek1_rest [of t] by (simp split: list.splits)

lemma advance_Nil [simp]: "rest t = [] \<Longrightarrow> advance t = (NUL, t)"
  by (simp add: advance_rest)

lemma advance_Cons [simp]: "rest t = c # cs \<Longrightarrow> advance t = (c, forward t 1)"
  by (simp add: advance_rest)

lemma not_isalnum_NUL [simp]: "\<not> isalnum NUL"
  by (simp add: isalnum_def isalpha_def isdigit_def)

lemma not_isdigit_NUL [simp]: "\<not> isdigit NUL"
  by (simp add: isdigit_def)

lemma readIdentifierOrKeyword_loop_eq:
  "readIdentifierOrKeyword_loop t v =
     (v @ takeWhile ident_char (rest t), forward t (length (takeWhile ident_char (rest t))))"
proof (induction "rest t" arbitrary: t v)
  case Nil
  then have "rest t = []" by simp
  then show ?case
    by (simp add: readIdentifierOrKeyword_loop.simps [of t v])
next
  case (Cons c cs)
  then have r: "rest t = c # cs" by simp
  show ?case
  proof (cases "ident_char c")
    case True
    from r have "cs = rest (forward t 1)" by simp
    from Cons(1) [OF this, of "v @ [c]"] r True show ?thesis
      by (simp add: readIdentifierOrKeyword_loop.simps [of t v] ident_char_def forward_forward)
  next
    case False
    with r show ?thesis
      by (simp add: readIdentifierOrKeyword_loop.simps [of t v] ident_char_def)
  qed
qed

lemma readNumber_loop_eq:
  "readNumber_loop t v =
     (v @ takeWhile number_char (rest t), forward t (length (takeWhile number_char (rest t))))"
proof (induction "rest t" arbitrary: t v)
  case Nil
  then have "rest t = []" by simp
  then show ?case
    by (simp add: readNumber_loop.simps [of t v])
next
  case (Cons c cs)
  then have r: "rest t = c # cs" by simp
  show ?case
  proof (cases "number_char c")
    case True
    from r have "cs = rest (forward t 1)" by simp
    from Cons(1) [OF this, of "v @ [c]"] r True show ?thesis
      by (simp add: readNumber_loop.simps [of t v] number_char_def forward_forward)
  next
    case False
    with r show ?thesis
      by (simp add: readNumber_loop.simps [of t v] number_char_def)
  qed
qed

lemma readString_loop_stop:
  "peek t 0 = DQUOTE \<or> peek t 0 = NUL \<Longrightarrow> readString_loop t v = (v, t)"
  by (auto simp: readString_loop.simps [of t v])

lemma readString_loop_eq:
  "readString_loop t v = (v @ string_text (rest t), forward t (string_len (rest t)))"
proof (induction "rest t" arbitrary: t v rule: string_text.induct)
  case 1
  then have "rest t = []" by simp
  then show ?case by (simp add: readString_loop.simps [of t v])
next
  case (2 c cs)
  then have r: "rest t = c # cs" by simp
  then have r1: "rest (forward t 1) = cs" by simp
  consider (stop) "c = DQUOTE \<or> c = NUL"
    | (esc_end) "c = BACKSLASH" "cs = []"
    | (esc_nul) ds where "c = BACKSLASH" "cs = NUL # ds"
    | (esc) d ds where "c = BACKSLASH" "cs = d # ds" "d \<noteq> NUL"
    | (plain) "c \<noteq> DQUOTE" "c \<noteq> NUL" "c \<noteq> BACKSLASH"
    by (cases cs) auto
  then show ?case
  proof cases
    case stop
    with r show ?thesis by (auto simp: readString_loop.simps [of t v])
  next
    case esc_end
    with r1 have "readString_loop (forward t 1) v = (v, forward t 1)"
      by (simp add: readString_loop_stop)
    with esc_end r r1 show ?thesis
      by (simp add: readString_loop.simps [of t v])
  next
    case esc_nul
    with r1 have "readString_loop (forward t 1) v = (v, forward t 1)"
      by (simp add: readString_loop_stop)
    with esc_nul r r1 show ?thesis
      by (simp add: readString_loop.simps [of t v])
  next
    case esc
    with r have "rest (forward t 2) = ds" by simp
    with 2(1) [of d "forward t 2" "v @ [d]"] esc
    have "readString_loop (forward t 2) (v @ [d])
          = ((v @ [d]) @ string_text ds, forward (forward t 2) (string_len ds))"
      by simp
    with esc r r1 show ?thesis
      by (simp add: readString_loop.simps [of t v] forward_forward numeral_2_eq_2)
  next
    case plain
    with 2(2) [of "forward t 1" "v @ [c]"] r1
    have "readString_loop (forward t 1) (v @ [c])
          = ((v @ [c]) @ string_text cs, forward (forward t 1) (string_len cs))"
      by simp
    with plain r show ?thesis
      by (simp add: readString_loop.simps [of t v] forward_forward)
  qed
qed

subsection \<open>The sub-scanners\<close>

lemma readIdentifierOrKeyword_eq:
  "readIdentifierOrKeyword t =
     (\<lparr>type_tok = (if takeWhile ident_char (rest t) \<in> set keywords_set then KEYWORD else IDENTIFIER),
       value_tok = takeWhile ident_char (rest t), line_tok = line t, column_tok = column t\<rparr>,
      forward t (length (takeWhile ident_char (rest t))))"
  by (simp add: readIdentifierOrKeyword_def readIdentifierOrKeyword_loop_eq Let_def)

lemma readNumber_eq:
  "readNumber t =
     (\<lparr>type_tok = NUMBER, value_tok = takeWhile number_char (rest t), line_tok = line t,
       column_tok = column t\<rparr>,
      forward t (length (takeWhile number_char (rest t))))"
  by (simp add: readNumber_def readNumber_loop_eq Let_def)

lemma string_len_le: "string_len cs \<le> length cs"
  by (induction cs rule: string_len.induct) (auto split: list.splits)

lemma string_closed_peek:
  "(case drop (string_len cs) cs of [] \<Rightarrow> NUL | c # _ \<Rightarrow> c) = DQUOTE \<longleftrightarrow> string_closed cs"
proof (induction cs rule: string_len.induct)
  case 1
  show ?case by simp
next
  case (2 c cs)
  consider (stop) "c = DQUOTE \<or> c = NUL"
    | (esc_end) "c = BACKSLASH" "cs = []"
    | (esc_nul) ds where "c = BACKSLASH" "cs = NUL # ds"
    | (esc) d ds where "c = BACKSLASH" "cs = d # ds" "d \<noteq> NUL"
    | (plain) "c \<noteq> DQUOTE" "c \<noteq> NUL" "c \<noteq> BACKSLASH"
    by (cases cs) auto
  then show ?case
  proof cases
    case stop
    then show ?thesis by auto
  next
    case esc_end
    then show ?thesis by simp
  next
    case esc_nul
    then show ?thesis by simp
  next
    case esc
    with 2(1) [of d ds] show ?thesis by simp
  next
    case plain
    with 2(2) show ?thesis by simp
  qed
qed

lemma readString_eq:
  assumes "rest t = DQUOTE # body"
  shows "readString t =
     (\<lparr>type_tok = STRING_LITERAL, value_tok = string_text body, line_tok = line t,
       column_tok = column t\<rparr>,
      forward t (1 + string_len body + (if string_closed body then 1 else 0)))"
proof -
  let ?t2 = "forward t (1 + string_len body)"
  from assms have a: "snd (advance t) = forward t 1" by simp
  from assms have "rest (forward t 1) = body" by simp
  then have b: "readString_loop (forward t 1) [] = (string_text body, ?t2)"
    by (simp add: readString_loop_eq forward_forward)
  from assms have r2: "rest ?t2 = drop (string_len body) body" by simp
  have c: "peek ?t2 0 = DQUOTE \<longleftrightarrow> string_closed body"
    unfolding peek0_rest r2 by (rule string_closed_peek)
  have d: "string_closed body \<Longrightarrow> snd (advance ?t2) = forward t (1 + string_len body + 1)"
  proof -
    assume "string_closed body"
    with c r2 obtain x xs where "rest ?t2 = x # xs"
      by (cases "drop (string_len body) body") (auto simp: peek0_rest)
    then have "snd (advance ?t2) = forward ?t2 1" by simp
    then show ?thesis by (simp add: forward_forward)
  qed
  show ?thesis
    unfolding readString_def Let_def a b using c d by simp
qed

lemma readOperator_eq:
  assumes "rest t = c # cs"
  shows "readOperator t =
     (let d = (case cs of [] \<Rightarrow> NUL | d # _ \<Rightarrow> d) in
      if [c, d] \<in> set two_char_operators
      then (\<lparr>type_tok = OPERATOR, value_tok = [c, d], line_tok = line t, column_tok = column t\<rparr>,
            forward t 2)
      else (\<lparr>type_tok = OPERATOR, value_tok = [c], line_tok = line t, column_tok = column t\<rparr>,
            forward t 1))"
proof (cases cs)
  case Nil
  with assms show ?thesis
    by (simp add: readOperator_def Let_def two_char_operators_def)
next
  case (Cons d ds)
  with assms have "rest (forward t 1) = d # ds" by simp
  then have "advance (forward t 1) = (d, forward t 2)"
    by (simp add: forward_forward numeral_2_eq_2)
  with assms Cons show ?thesis
    by (auto simp: readOperator_def Let_def two_char_operators_def numeral_2_eq_2)
qed
lemma readIdentifierOrKeyword_forward: "steps_forward t (snd (readIdentifierOrKeyword t))"
  by (simp add: readIdentifierOrKeyword_def Let_def case_prod_unfold
      readIdentifierOrKeyword_loop_forward)

lemma readNumber_forward: "steps_forward t (snd (readNumber t))"
  by (simp add: readNumber_def Let_def case_prod_unfold readNumber_loop_forward)

lemma readString_forward: "steps_forward t (snd (readString t))"
proof -
  let ?t1 = "snd (advance t)"
  let ?t2 = "snd (readString_loop ?t1 [])"
  have a: "steps_forward t ?t2"
    by (rule steps_forward_trans [OF steps_forward_advance readString_loop_forward])
  have b: "steps_forward t (snd (advance ?t2))"
    by (rule steps_forward_trans [OF a steps_forward_advance])
  have "snd (readString t) = (if peek ?t2 0 = DQUOTE then snd (advance ?t2) else ?t2)"
    by (simp add: readString_def Let_def case_prod_unfold)
  with a b show ?thesis by simp
qed

lemma readOperator_forward: "steps_forward t (snd (readOperator t))"
proof -
  let ?t1 = "snd (advance t)"
  have a: "steps_forward t ?t1" by (rule steps_forward_advance)
  have b: "steps_forward t (snd (advance ?t1))"
    by (rule steps_forward_trans [OF a steps_forward_advance])
  have "snd (readOperator t) = ?t1 \<or> snd (readOperator t) = snd (advance ?t1)"
    by (simp add: readOperator_def Let_def case_prod_unfold)
  with a b show ?thesis by auto
qed

lemma tokenize_dispatch_forward: "steps_forward t (snd (tokenize_dispatch t))"
  using readIdentifierOrKeyword_forward [of t] readNumber_forward [of t]
    readString_forward [of t] readOperator_forward [of t] steps_forward_advance [of t]
  by (simp add: tokenize_dispatch_def Let_def case_prod_unfold)

lemma isalpha_ident_char: "isalpha c \<or> c = CHR ''_'' \<Longrightarrow> ident_char c"
  by (auto simp: ident_char_def isalnum_def)

lemma isdigit_number_char: "isdigit c \<Longrightarrow> number_char c"
  by (simp add: number_char_def)

lemma take_length_takeWhile: "take (length (takeWhile P xs)) xs = takeWhile P xs"
  by (induction xs) simp_all

subsection \<open>The dispatch\<close>

text \<open>What the dispatch emits at a state that has input left.\<close>

lemma dispatch_identifier:
  "rest t = c # cs \<Longrightarrow> isalpha c \<or> c = CHR ''_'' \<Longrightarrow>
   tokenize_dispatch t = readIdentifierOrKeyword t"
  by (simp add: tokenize_dispatch_def Let_def)

lemma dispatch_number:
  "rest t = c # cs \<Longrightarrow> \<not> (isalpha c \<or> c = CHR ''_'') \<Longrightarrow> isdigit c \<Longrightarrow>
   tokenize_dispatch t = readNumber t"
  by (simp add: tokenize_dispatch_def Let_def)

lemma not_isalpha_DQUOTE [simp]: "\<not> isalpha DQUOTE"
  by (simp add: isalpha_def)

lemma not_isdigit_DQUOTE [simp]: "\<not> isdigit DQUOTE"
  by (simp add: isdigit_def)

lemma dispatch_string:
  "rest t = DQUOTE # cs \<Longrightarrow> tokenize_dispatch t = readString t"
  by (simp add: tokenize_dispatch_def Let_def)

lemma dispatch_single:
  "rest t = c # cs \<Longrightarrow> \<not> (isalpha c \<or> c = CHR ''_'') \<Longrightarrow> \<not> isdigit c \<Longrightarrow> c \<noteq> DQUOTE \<Longrightarrow>
   c \<notin> set operator_chars \<Longrightarrow>
   tokenize_dispatch t =
     (\<lparr>type_tok = (if c \<in> set punctuation_chars then PUNCTUATION else UNKNOWN),
       value_tok = [c], line_tok = line t, column_tok = column t\<rparr>, forward t 1)"
  by (simp add: tokenize_dispatch_def Let_def operator_chars_def punctuation_chars_def)

lemma operator_char_class:
  assumes "c \<in> set operator_chars"
  shows "\<not> isalpha c" "c \<noteq> CHR ''_''" "\<not> isdigit c" "c \<noteq> DQUOTE"
    "c \<notin> set punctuation_chars"
  using assms by (auto simp: operator_chars_def punctuation_chars_def isalpha_def isdigit_def)

lemma punctuation_char_class:
  assumes "c \<in> set punctuation_chars"
  shows "\<not> isalpha c" "c \<noteq> CHR ''_''" "\<not> isdigit c" "c \<noteq> DQUOTE"
  using assms by (auto simp: punctuation_chars_def isalpha_def isdigit_def)

lemma dispatch_punctuation:
  assumes "rest t = c # cs" and "c \<in> set punctuation_chars"
  shows "tokenize_dispatch t =
     (\<lparr>type_tok = PUNCTUATION, value_tok = [c], line_tok = line t, column_tok = column t\<rparr>,
      forward t 1)"
proof -
  from assms(2)
  have "c = CHR '';'' \<or> c = CHR '','' \<or> c = CHR ''('' \<or> c = CHR '')'' \<or>
        c = CHR ''{'' \<or> c = CHR ''}'' \<or> c = CHR ''['' \<or> c = CHR '']''"
    by (simp add: punctuation_chars_def)
  then show ?thesis
    using punctuation_char_class [OF assms(2)]
    by (simp only: tokenize_dispatch_def Let_def peek0_Cons [OF assms(1)] if_True if_False
        simp_thms advance_Cons [OF assms(1)] prod.case)
qed

lemma dispatch_operator:
  assumes "rest t = c # cs" and "c \<in> set operator_chars"
  shows "tokenize_dispatch t = readOperator t"
proof -
  from assms(2) have "c = CHR ''+'' \<or> c = CHR ''-'' \<or> c = CHR ''*'' \<or> c = CHR ''/'' \<or>
             c = CHR ''='' \<or> c = CHR ''<'' \<or> c = CHR ''>'' \<or> c = CHR ''!'' \<or>
             c = CHR ''&'' \<or> c = CHR ''|'' \<or> c = CHR '':''"
    by (simp add: operator_chars_def)
  moreover from operator_char_class(5) [OF assms(2)]
  have "\<not> (c = CHR '';'' \<or> c = CHR '','' \<or> c = CHR ''('' \<or> c = CHR '')'' \<or>
             c = CHR ''{'' \<or> c = CHR ''}'' \<or> c = CHR ''['' \<or> c = CHR '']'')"
    by (simp add: punctuation_chars_def)
  ultimately show ?thesis
    using operator_char_class(1-4) [OF assms(2)] assms(1)
    by (simp only: tokenize_dispatch_def Let_def peek0_Cons [OF assms(1)] if_True if_False
        simp_thms)
qed

subsection \<open>The loop of \<^verbatim>\<open>tokenize\<close>\<close>

text \<open>One round of the loop, as two unfolding rules.\<close>

lemma tokenize_loop_stop:
  "\<not> pos t < length (source t) \<Longrightarrow> tokenize_loop t acc = (acc, t)"
  by (simp add: tokenize_loop.simps [of t acc])

lemma tokenize_loop_break:
  "pos t < length (source t) \<Longrightarrow>
   length (source t) \<le> pos (skipComments (skipWhitespace t)) \<Longrightarrow>
   tokenize_loop t acc = (acc, skipComments (skipWhitespace t))"
  using steps_forward_source [OF steps_forward_trans [OF skipWhitespace_forward skipComments_forward], of t]
  by (simp add: tokenize_loop.simps [of t acc] Let_def)

lemma tokenize_loop_step:
  "pos t < length (source t) \<Longrightarrow>
   pos (skipComments (skipWhitespace t)) < length (source t) \<Longrightarrow>
   tokenize_dispatch (skipComments (skipWhitespace t)) = (tok, t2) \<Longrightarrow>
   tokenize_loop t acc = tokenize_loop t2 (acc @ [tok])"
  using steps_forward_source [OF steps_forward_trans [OF skipWhitespace_forward skipComments_forward], of t]
  by (simp add: tokenize_loop.simps [of t acc] Let_def)

lemma tokenize_loop_prefix:
  "tokenize_loop t (pre @ acc) = (pre @ fst (tokenize_loop t acc), snd (tokenize_loop t acc))"
proof (induction t acc arbitrary: pre rule: tokenize_loop.induct)
  case (1 t tokens)
  let ?t1 = "skipComments (skipWhitespace t)"
  have src: "source ?t1 = source t"
    by (rule steps_forward_source
        [OF steps_forward_trans [OF skipWhitespace_forward skipComments_forward]])
  obtain tok t2 where d: "tokenize_dispatch ?t1 = (tok, t2)" by (cases "tokenize_dispatch ?t1")
  consider (stop) "\<not> pos t < length (source t)"
    | (brk) "pos t < length (source t)" "length (source t) \<le> pos ?t1"
    | (step) "pos t < length (source t)" "pos ?t1 < length (source t)"
    by linarith
  then show ?case
  proof cases
    case stop
    then show ?thesis by (simp add: tokenize_loop_stop)
  next
    case brk
    then show ?thesis by (simp add: tokenize_loop_break)
  next
    case step
    with 1 [of ?t1 "(tok, t2)" tok t2 pre] d src
    have "tokenize_loop t2 (pre @ tokens @ [tok])
        = (pre @ fst (tokenize_loop t2 (tokens @ [tok])), snd (tokenize_loop t2 (tokens @ [tok])))"
      by simp
    with step d show ?thesis
      by (simp add: tokenize_loop_step [OF step d])
  qed
qed

lemma tokenize_loop_acc:
  "tokenize_loop t acc = (acc @ fst (tokenize_loop t []), snd (tokenize_loop t []))"
  using tokenize_loop_prefix [of t acc "[]"] by simp

lemma skip_forward: "steps_forward t (skipComments (skipWhitespace t))"
  by (rule steps_forward_trans [OF skipWhitespace_forward skipComments_forward])

lemma tokenize_loop_induct [case_names stop brk step]:
  assumes stop: "\<And>t. \<not> pos t < length (source t) \<Longrightarrow> P t"
    and brk: "\<And>t. pos t < length (source t) \<Longrightarrow>
               length (source t) \<le> pos (skipComments (skipWhitespace t)) \<Longrightarrow> P t"
    and step: "\<And>t tok t2. pos t < length (source t) \<Longrightarrow>
               pos (skipComments (skipWhitespace t)) < length (source t) \<Longrightarrow>
               tokenize_dispatch (skipComments (skipWhitespace t)) = (tok, t2) \<Longrightarrow>
               P t2 \<Longrightarrow> P t"
  shows "P t"
proof -
  have "P t" for acc :: "Token list"
  proof (induction t acc rule: tokenize_loop.induct)
    case (1 t tokens)
    let ?t1 = "skipComments (skipWhitespace t)"
    have src: "source ?t1 = source t" by (rule steps_forward_source [OF skip_forward])
    obtain tok t2 where d: "tokenize_dispatch ?t1 = (tok, t2)"
      by (cases "tokenize_dispatch ?t1")
    consider (a) "\<not> pos t < length (source t)"
      | (b) "pos t < length (source t)" "length (source t) \<le> pos ?t1"
      | (c) "pos t < length (source t)" "pos ?t1 < length (source t)"
      by linarith
    then show ?case
    proof cases
      case a
      then show ?thesis by (rule stop)
    next
      case b
      then show ?thesis by (rule brk)
    next
      case c
      with 1 [of ?t1 "(tok, t2)" tok t2] d src have "P t2" by simp
      with c d show ?thesis by (rule step)
    qed
  qed
  then show ?thesis by simp
qed

lemma tokenize_loop_tokens_step:
  "pos t < length (source t) \<Longrightarrow>
   pos (skipComments (skipWhitespace t)) < length (source t) \<Longrightarrow>
   tokenize_dispatch (skipComments (skipWhitespace t)) = (tok, t2) \<Longrightarrow>
   tokenize_loop t [] = (tok # fst (tokenize_loop t2 []), snd (tokenize_loop t2 []))"
  using tokenize_loop_acc [of t2 "[tok]"] by (simp add: tokenize_loop_step)

lemma tokenize_loop_forward: "steps_forward t (snd (tokenize_loop t []))"
proof (induction t rule: tokenize_loop_induct)
  case (stop t)
  then show ?case by (simp add: tokenize_loop_stop steps_forward_refl)
next
  case (brk t)
  then show ?case by (simp add: tokenize_loop_break skip_forward)
next
  case (step t tok t2)
  let ?t1 = "skipComments (skipWhitespace t)"
  from step have "pos ?t1 < length (source ?t1)"
    by (simp add: steps_forward_source [OF skip_forward])
  from tokenize_dispatch_forward [of ?t1] step(3) have "steps_forward ?t1 t2" by simp
  with skip_forward have "steps_forward t t2" by (rule steps_forward_trans)
  from this step(4) have "steps_forward t (snd (tokenize_loop t2 []))"
    by (rule steps_forward_trans)
  with step show ?case by (simp add: tokenize_loop_tokens_step)
qed

lemma tokenize_loop_at_end:
  "pos t \<le> length (source t) \<Longrightarrow> pos (snd (tokenize_loop t [])) = length (source t)"
proof (induction t rule: tokenize_loop_induct)
  case (stop t)
  then show ?case by (simp add: tokenize_loop_stop)
next
  case (brk t)
  with steps_forward_bound [OF skip_forward, of t] show ?case
    by (simp add: tokenize_loop_break)
next
  case (step t tok t2)
  let ?t1 = "skipComments (skipWhitespace t)"
  from step have "pos ?t1 < length (source ?t1)"
    by (simp add: steps_forward_source [OF skip_forward])
  from tokenize_dispatch_forward [of ?t1] step(3) have a: "steps_forward ?t1 t2" by simp
  with skip_forward have b: "steps_forward t t2" by (rule steps_forward_trans)
  from steps_forward_bound [OF b] steps_forward_source [OF b] step
  show ?case by (simp add: tokenize_loop_tokens_step)
qed

lemma tokenize_loop_origin:
  "tok \<in> set (fst (tokenize_loop t [])) \<Longrightarrow>
   \<exists>t1. steps_forward t t1 \<and> pos t1 < length (source t1) \<and> tok = fst (tokenize_dispatch t1)"
proof (induction t rule: tokenize_loop_induct)
  case (stop t)
  then show ?case by (simp add: tokenize_loop_stop)
next
  case (brk t)
  then show ?case by (simp add: tokenize_loop_break)
next
  case (step t tok' t2)
  let ?t1 = "skipComments (skipWhitespace t)"
  from step have lt: "pos ?t1 < length (source ?t1)"
    by (simp add: steps_forward_source [OF skip_forward])
  from tokenize_dispatch_forward [of ?t1] step(3) have a: "steps_forward ?t1 t2" by simp
  with skip_forward have b: "steps_forward t t2" by (rule steps_forward_trans)
  from step(5) step(1-3) consider "tok = tok'" | "tok \<in> set (fst (tokenize_loop t2 []))"
    by (auto simp: tokenize_loop_tokens_step)
  then show ?case
  proof cases
    case 1
    with lt step(3) skip_forward [of t] show ?thesis by (intro exI [of _ ?t1]) simp
  next
    case 2
    from step(4) [OF this] obtain t1 where
      "steps_forward t2 t1" "pos t1 < length (source t1)" "tok = fst (tokenize_dispatch t1)"
      by blast
    with steps_forward_trans [OF b] show ?thesis by blast
  qed
qed

subsection \<open>A whole run\<close>

lemma tokenize_source_eq:
  "tokenize_source src =
     fst (tokenize_loop (Tokenizer_init src) []) @
     [\<lparr>type_tok = END_OF_FILE, value_tok = [],
       line_tok = line (snd (tokenize_loop (Tokenizer_init src) [])),
       column_tok = column (snd (tokenize_loop (Tokenizer_init src) []))\<rparr>]"
  by (simp add: tokenize_source_def tokenize_def case_prod_unfold Let_def)

lemma tokenize_final_state:
  "snd (tokenize t) = snd (tokenize_loop t [])"
  by (simp add: tokenize_def case_prod_unfold Let_def)

lemma init_fields [simp]:
  "source (Tokenizer_init src) = src" "pos (Tokenizer_init src) = 0"
  "line (Tokenizer_init src) = 1" "column (Tokenizer_init src) = 1"
  by (simp_all add: Tokenizer_init_def)

lemma init_rest [simp]: "rest (Tokenizer_init src) = src"
  by (simp add: rest_def)

lemma reached_from_init:
  assumes "steps_forward (Tokenizer_init src) t"
  shows "source t = src" "pos t \<le> length src" "rest t = drop (pos t) src"
    "(line t, column t) = walk (take (pos t) src) (1, 1)"
proof -
  from assms obtain n where n: "n \<le> length src" "t = forward (Tokenizer_init src) n"
    by (auto dest: steps_forwardD)
  then have p: "pos t = n" by simp
  from n show "source t = src" by simp
  from n p show "pos t \<le> length src" by simp
  from n p show "rest t = drop (pos t) src" by simp
  from n p position_forward [of "Tokenizer_init src" n]
  show "(line t, column t) = walk (take (pos t) src) (1, 1)"
    by simp
qed

lemma dispatch_not_EOF: "type_tok (fst (tokenize_dispatch t)) \<noteq> END_OF_FILE"
  by (simp add: tokenize_dispatch_def Let_def case_prod_unfold readIdentifierOrKeyword_def
      readNumber_def readString_def readOperator_def)

lemma loop_tokens_not_EOF:
  "tok \<in> set (fst (tokenize_loop t [])) \<Longrightarrow> type_tok tok \<noteq> END_OF_FILE"
  by (auto dest!: tokenize_loop_origin simp: dispatch_not_EOF)

lemma filter_none: "(\<And>x. x \<in> set xs \<Longrightarrow> \<not> P x) \<Longrightarrow> filter P xs = []"
  by (induction xs) auto

lemma steps_forward_position:
  "steps_forward t t' \<Longrightarrow>
   (line t', column t') = walk (take (pos t' - pos t) (rest t)) (line t, column t)"
  using position_forward [of t "pos t' - pos t"] by (simp add: steps_forward_def)

lemma tokenize_forward: "steps_forward t (snd (tokenize t))"
  by (simp add: tokenize_final_state tokenize_loop_forward)

lemma dispatch_token:
  assumes "rest t = c # cs"
  shows "line_tok (fst (tokenize_dispatch t)) = line t"
    and "column_tok (fst (tokenize_dispatch t)) = column t"
    and "if type_tok (fst (tokenize_dispatch t)) = STRING_LITERAL
         then c = DQUOTE \<and> value_tok (fst (tokenize_dispatch t)) = string_text cs
         else value_tok (fst (tokenize_dispatch t)) \<noteq> [] \<and>
              take (length (value_tok (fst (tokenize_dispatch t)))) (rest t)
                = value_tok (fst (tokenize_dispatch t))"
proof -
  consider (ident) "isalpha c \<or> c = CHR ''_''"
    | (num) "\<not> (isalpha c \<or> c = CHR ''_'')" "isdigit c"
    | (str) "c = DQUOTE"
    | (op) "c \<in> set operator_chars"
    | (single) "\<not> (isalpha c \<or> c = CHR ''_'')" "\<not> isdigit c" "c \<noteq> DQUOTE"
        "c \<notin> set operator_chars"
    by blast
  then have "line_tok (fst (tokenize_dispatch t)) = line t
    \<and> column_tok (fst (tokenize_dispatch t)) = column t
    \<and> (if type_tok (fst (tokenize_dispatch t)) = STRING_LITERAL
         then c = DQUOTE \<and> value_tok (fst (tokenize_dispatch t)) = string_text cs
         else value_tok (fst (tokenize_dispatch t)) \<noteq> [] \<and>
              take (length (value_tok (fst (tokenize_dispatch t)))) (rest t)
                = value_tok (fst (tokenize_dispatch t)))"
  proof cases
    case ident
    then have "ident_char c" by (rule isalpha_ident_char)
    with assms ident show ?thesis
      by (simp add: dispatch_identifier [OF assms ident] readIdentifierOrKeyword_eq
          take_length_takeWhile [of ident_char cs])
  next
    case num
    then have "number_char c" by (simp add: isdigit_number_char)
    with assms num show ?thesis
      by (simp add: dispatch_number [OF assms num] readNumber_eq
          take_length_takeWhile [of number_char cs])
  next
    case str
    with assms show ?thesis
      by (simp add: dispatch_string readString_eq)
  next
    case op
    with assms show ?thesis
    proof (cases cs)
      case Nil
      with assms show ?thesis
        by (simp add: dispatch_operator [OF assms op] readOperator_eq [OF assms] Let_def
            two_char_operators_def)
    next
      case (Cons d ds)
      with assms show ?thesis
        by (simp add: dispatch_operator [OF assms op] readOperator_eq [OF assms] Let_def)
    qed
  next
    case single
    with assms show ?thesis
      by (simp add: dispatch_single [OF assms single])
  qed
  then show "line_tok (fst (tokenize_dispatch t)) = line t"
    and "column_tok (fst (tokenize_dispatch t)) = column t"
    and "if type_tok (fst (tokenize_dispatch t)) = STRING_LITERAL
         then c = DQUOTE \<and> value_tok (fst (tokenize_dispatch t)) = string_text cs
         else value_tok (fst (tokenize_dispatch t)) \<noteq> [] \<and>
              take (length (value_tok (fst (tokenize_dispatch t)))) (rest t)
                = value_tok (fst (tokenize_dispatch t))"
    by blast+
qed

lemma source_tokens_origin:
  assumes "tok \<in> set (tokenize_source src)" and "type_tok tok \<noteq> END_OF_FILE"
  shows "\<exists>i<length src. tok = fst (tokenize_dispatch (forward (Tokenizer_init src) i))"
proof -
  from assms have "tok \<in> set (fst (tokenize_loop (Tokenizer_init src) []))"
    by (auto simp: tokenize_source_eq)
  then obtain t1 where t1: "steps_forward (Tokenizer_init src) t1"
    "pos t1 < length (source t1)" "tok = fst (tokenize_dispatch t1)"
    by (blast dest: tokenize_loop_origin)
  from t1(1) have "t1 = forward (Tokenizer_init src) (pos t1)"
    by (simp add: steps_forward_def)
  with t1 reached_from_init(1) [OF t1(1)] show ?thesis by auto
qed

lemma dispatch_other_type:
  "\<not> (isalpha (peek t 0) \<or> peek t 0 = CHR ''_'') \<Longrightarrow>
   type_tok (fst (tokenize_dispatch t)) \<noteq> KEYWORD \<and>
   type_tok (fst (tokenize_dispatch t)) \<noteq> IDENTIFIER"
  by (simp add: tokenize_dispatch_def Let_def case_prod_unfold readNumber_def readString_def
      readOperator_def)

lemma drop_length_takeWhile: "drop (length (takeWhile P xs)) xs = dropWhile P xs"
  by (induction xs) simp_all

lemma two_char_lookahead:
  "[c, lookahead cs] \<in> set two_char_operators \<Longrightarrow> cs \<noteq> [] \<and> hd cs = lookahead cs"
  by (cases cs) (auto simp: lookahead_def two_char_operators_def)

lemma string_text_spec:
  "NUL \<notin> set cs \<Longrightarrow> string_text cs = spec_string_text cs"
proof (induction cs rule: string_text.induct)
  case 1
  show ?case by simp
next
  case (2 c cs)
  from 2(3) have n: "c \<noteq> NUL" "NUL \<notin> set cs" by auto
  consider (quote) "c = DQUOTE"
    | (esc_end) "c = BACKSLASH" "cs = []"
    | (esc) d ds where "c = BACKSLASH" "cs = d # ds" "d \<noteq> NUL" "NUL \<notin> set ds"
    | (plain) "c \<noteq> DQUOTE" "c \<noteq> BACKSLASH"
    using n by (cases cs) auto
  then show ?case
  proof cases
    case quote
    then show ?thesis by simp
  next
    case esc_end
    then show ?thesis by simp
  next
    case esc
    with 2(1) [of d ds] show ?thesis by simp
  next
    case plain
    with 2(2) n show ?thesis by simp
  qed
qed

lemma string_closed_len: "string_closed cs \<Longrightarrow> string_len cs < length cs"
proof (induction cs rule: string_len.induct)
  case 1
  then show ?case by simp
next
  case (2 c cs)
  show ?case
  proof (cases cs)
    case Nil
    with 2 show ?thesis by (simp split: if_splits)
  next
    case (Cons d ds)
    with 2 show ?thesis by (simp split: if_splits)
  qed
qed

lemma rest_length: "length (rest t) = length (source t) - pos t"
  by (simp add: rest_def)

lemma skip_noop:
  assumes "rest t = c # cs" and "\<not> isspace c" and "c \<noteq> CHR ''/''"
  shows "skipComments (skipWhitespace t) = t"
proof -
  from assms have "skipWhitespace t = t" by (simp add: skipWhitespace.simps [of t])
  moreover from assms have "skipComments t = t" by (simp add: skipComments_def)
  ultimately show ?thesis by simp
qed

lemma single_token_run:
  assumes "src = c # cs" and "\<not> isspace c" and "c \<noteq> CHR ''/''"
    and "tokenize_dispatch (Tokenizer_init src) = (tok, forward (Tokenizer_init src) (length src))"
  shows "tokenize_source src =
     [tok, \<lparr>type_tok = END_OF_FILE, value_tok = [], line_tok = fst (walk src (1, 1)),
            column_tok = snd (walk src (1, 1))\<rparr>]"
proof -
  let ?t0 = "Tokenizer_init src"
  let ?t2 = "forward ?t0 (length src)"
  from assms(1) have r: "rest ?t0 = c # cs" by simp
  have s: "skipComments (skipWhitespace ?t0) = ?t0" by (rule skip_noop [OF r assms(2,3)])
  from assms(1) have ne: "src \<noteq> []" by simp
  have "tokenize_loop ?t0 [] = (tok # fst (tokenize_loop ?t2 []), snd (tokenize_loop ?t2 []))"
    by (rule tokenize_loop_tokens_step) (simp_all add: s ne assms(4))
  moreover have "tokenize_loop ?t2 [] = ([], ?t2)" by (simp add: tokenize_loop_stop)
  moreover from position_forward [of ?t0 "length src"]
  have "line ?t2 = fst (walk src (1, 1))" "column ?t2 = snd (walk src (1, 1))"
    by (simp_all add: prod_eq_iff)
  ultimately show ?thesis by (simp add: tokenize_source_eq)
qed

lemma not_isspace_DQUOTE [simp]: "\<not> isspace DQUOTE"
  by (simp add: isspace_def)

subsection \<open>Positions as numbers\<close>

lemma walk_of_int:
  "walk cs (word_of_int l, word_of_int k) =
     (word_of_int (fst (position cs (l, k))), word_of_int (snd (position cs (l, k))))"
proof (induction cs arbitrary: l k)
  case Nil
  show ?case by simp
next
  case (Cons c cs)
  show ?case
  proof (cases "c = NEWLINE")
    case True
    with Cons.IH [of "l + 1" 1] show ?thesis by simp
  next
    case False
    with Cons.IH [of l "k + 1"] show ?thesis by simp
  qed
qed

lemma position_bounds:
  "1 \<le> l \<Longrightarrow> 1 \<le> k \<Longrightarrow>
   l \<le> fst (position cs (l, k)) \<and> fst (position cs (l, k)) \<le> l + int (length cs) \<and>
   1 \<le> snd (position cs (l, k)) \<and> snd (position cs (l, k)) \<le> k + int (length cs)"
proof (induction cs arbitrary: l k)
  case Nil
  then show ?case by simp
next
  case (Cons c cs)
  show ?case
  proof (cases "c = NEWLINE")
    case True
    with Cons.IH [of "l + 1" 1] Cons.prems show ?thesis by simp
  next
    case False
    with Cons.IH [of l "k + 1"] Cons.prems show ?thesis by simp
  qed
qed

lemma sint_of_int_32:
  "- 2147483648 \<le> x \<Longrightarrow> x < 2147483648 \<Longrightarrow> sint (word_of_int x :: int32) = x"
  by (simp add: sint_sbintrunc' signed_take_bit_int_eq_self)

lemma walk_sint:
  assumes "1 \<le> sint l" and "1 \<le> sint k"
    and "sint l + int (length cs) < 2147483648" and "sint k + int (length cs) < 2147483648"
  shows "(sint (fst (walk cs (l, k))), sint (snd (walk cs (l, k)))) = position cs (sint l, sint k)"
proof -
  let ?p = "position cs (sint l, sint k)"
  have w: "walk cs (l, k) = (word_of_int (fst ?p), word_of_int (snd ?p))"
    using walk_of_int [of cs "sint l" "sint k"] by simp
  from position_bounds [OF assms(1,2), of cs] assms
  have "- 2147483648 \<le> fst ?p" "fst ?p < 2147483648" "- 2147483648 \<le> snd ?p"
    "snd ?p < 2147483648"
    by auto
  then have "sint (word_of_int (fst ?p) :: int32) = fst ?p"
    "sint (word_of_int (snd ?p) :: int32) = snd ?p"
    by (simp_all add: sint_of_int_32)
  with w show ?thesis by simp
qed

lemma walk_sint_start:
  assumes "length cs < 2147483647"
  shows "(sint (fst (walk cs (1, 1))), sint (snd (walk cs (1, 1)))) = position cs (1, 1)"
  using walk_sint [of 1 1 cs] assms by simp

lemma walk_blanks: "walk (replicate n CHR '' '') (l, k) = (l, k + of_nat n)"
  by (induction n arbitrary: k) (simp_all add: add.assoc add.commute)

lemma position_blanks: "position (replicate n CHR '' '') (l, k) = (l, k + int n)"
  by (induction n arbitrary: k) simp_all

lemma rest_Cons_in_range: "rest t = c # cs \<Longrightarrow> pos t < length (source t)"
  by (cases "pos t < length (source t)") (simp_all add: rest_def)

lemma skipWhitespace_eq:
  "skipWhitespace t = forward t (length (takeWhile isspace (rest t)))"
proof (induction "rest t" arbitrary: t)
  case Nil
  then have "rest t = []" by simp
  then have "\<not> pos t < length (source t)" by (simp add: rest_def)
  with \<open>rest t = []\<close> show ?case by (simp add: skipWhitespace.simps [of t])
next
  case (Cons c cs)
  then have r: "rest t = c # cs" by simp
  note lt = rest_Cons_in_range [OF r]
  show ?case
  proof (cases "isspace c")
    case True
    from r have "cs = rest (forward t 1)" by simp
    from Cons(1) [OF this] r True lt show ?thesis
      by (simp add: skipWhitespace.simps [of t] forward_forward)
  next
    case False
    with r show ?thesis by (simp add: skipWhitespace.simps [of t])
  qed
qed

lemma takeWhile_blanks:
  "\<not> isspace c \<Longrightarrow> takeWhile isspace (replicate n CHR '' '' @ c # cs) = replicate n CHR '' ''"
  by (induction n) (simp_all add: isspace_def)

lemma blank_prefix_run:
  "tokenize_source (replicate n CHR '' '' @ ''x'') =
     [\<lparr>type_tok = IDENTIFIER, value_tok = ''x'', line_tok = 1, column_tok = 1 + of_nat n\<rparr>,
      \<lparr>type_tok = END_OF_FILE, value_tok = [], line_tok = 1, column_tok = 2 + of_nat n\<rparr>]"
proof -
  let ?src = "replicate n CHR '' '' @ ''x''"
  let ?t0 = "Tokenizer_init ?src"
  let ?t1 = "forward ?t0 n"
  let ?t2 = "forward ?t0 (n + 1)"
  let ?tok = "\<lparr>type_tok = IDENTIFIER, value_tok = ''x'', line_tok = 1, column_tok = 1 + of_nat n\<rparr>"
  have nx: "\<not> isspace CHR ''x''" by (simp add: isspace_def)
  have sw: "skipWhitespace ?t0 = ?t1"
    by (simp add: skipWhitespace_eq takeWhile_blanks [OF nx])
  have r1: "rest ?t1 = ''x''" by simp
  then have "skipComments ?t1 = ?t1" by (simp add: skipComments_def)
  with sw have sk: "skipComments (skipWhitespace ?t0) = ?t1" by simp
  from position_forward [of ?t0 n] have p1: "line ?t1 = 1" "column ?t1 = 1 + of_nat n"
    by (simp_all add: walk_blanks)
  have a: "isalpha CHR ''x'' \<or> CHR ''x'' = CHR ''_''" by (simp add: isalpha_def)
  have k: "takeWhile ident_char ''x'' = ''x''"
    by (simp add: ident_char_def isalnum_def isalpha_def)
  have "''x'' \<notin> set keywords_set" by (simp add: keywords_set_def)
  with r1 k p1 have d: "tokenize_dispatch ?t1 = (?tok, ?t2)"
    by (simp add: dispatch_identifier [OF r1 a] readIdentifierOrKeyword_eq forward_forward)
  have "tokenize_loop ?t0 [] = (?tok # fst (tokenize_loop ?t2 []), snd (tokenize_loop ?t2 []))"
    by (rule tokenize_loop_tokens_step) (simp_all add: sk d)
  moreover have "tokenize_loop ?t2 [] = ([], ?t2)" by (simp add: tokenize_loop_stop)
  moreover from position_forward [of ?t0 "n + 1"]
  have "line ?t2 = 1" "column ?t2 = 2 + of_nat n"
    by (simp_all add: walk_append walk_blanks)
  ultimately show ?thesis by (simp add: tokenize_source_eq)
qed

lemma eof_filter:
  "filter (\<lambda>tok. type_tok tok = END_OF_FILE) (tokenize_source src) = [last (tokenize_source src)]"
proof -
  have "filter (\<lambda>tok. type_tok tok = END_OF_FILE) (fst (tokenize_loop (Tokenizer_init src) [])) = []"
    by (rule filter_none) (auto dest: loop_tokens_not_EOF)
  then show ?thesis by (simp add: tokenize_source_eq)
qed

lemma final_cursor:
  "pos (snd (tokenize (Tokenizer_init src))) = length src"
  "(line (snd (tokenize (Tokenizer_init src))), column (snd (tokenize (Tokenizer_init src))))
     = walk src (1, 1)"
proof -
  let ?t = "snd (tokenize_loop (Tokenizer_init src) [])"
  have fwd: "steps_forward (Tokenizer_init src) ?t" by (rule tokenize_loop_forward)
  have "pos ?t = length (source (Tokenizer_init src))"
    by (rule tokenize_loop_at_end) simp
  then have p: "pos ?t = length src" by simp
  then show "pos (snd (tokenize (Tokenizer_init src))) = length src"
    by (simp add: tokenize_final_state)
  from reached_from_init(4) [OF fwd] p
  show "(line (snd (tokenize (Tokenizer_init src))), column (snd (tokenize (Tokenizer_init src))))
     = walk src (1, 1)"
    by (simp add: tokenize_final_state)
qed

lemma advance_sint:
  assumes "pos t < length (source t)"
  shows "source t ! pos t = NEWLINE \<Longrightarrow> sint (line t) < 2147483647 \<Longrightarrow>
           sint (line (snd (advance t))) = sint (line t) + 1 \<and> sint (column (snd (advance t))) = 1"
    and "source t ! pos t \<noteq> NEWLINE \<Longrightarrow> sint (column t) < 2147483647 \<Longrightarrow>
           sint (line (snd (advance t))) = sint (line t) \<and>
           sint (column (snd (advance t))) = sint (column t) + 1"
proof -
  have inc: "sint (w + 1) = sint w + 1" if "sint w < 2147483647" for w :: int32
  proof -
    have "w + 1 = word_of_int (sint w + 1)" by simp
    moreover have "- 2147483648 \<le> sint w"
      using sint_ge [of w] by simp
    ultimately show ?thesis
      using that sint_of_int_32 [of "sint w + 1"] by simp
  qed
  show "source t ! pos t = NEWLINE \<Longrightarrow> sint (line t) < 2147483647 \<Longrightarrow>
           sint (line (snd (advance t))) = sint (line t) + 1 \<and> sint (column (snd (advance t))) = 1"
    using assms by (simp add: advance_def Let_def inc)
  show "source t ! pos t \<noteq> NEWLINE \<Longrightarrow> sint (column t) < 2147483647 \<Longrightarrow>
           sint (line (snd (advance t))) = sint (line t) \<and>
           sint (column (snd (advance t))) = sint (column t) + 1"
    using assms by (simp add: advance_def Let_def inc)
qed

lemma reached_sint:
  assumes "length src < 2147483647" and "steps_forward (Tokenizer_init src) u"
  shows "(sint (line u), sint (column u)) = position (take (pos u) src) (1, 1)"
proof -
  from reached_from_init(2) [OF assms(2)] assms(1)
  have "length (take (pos u) src) < 2147483647" by simp
  from walk_sint_start [OF this] reached_from_init(4) [OF assms(2)]
  show ?thesis by (simp add: prod_eq_iff)
qed

section \<open>The claims\<close>

text \<open>
  Claim C1. Runs of whitespace and comments between tokens are consumed without a token;
  in particular the source \<^verbatim>\<open>// comment\<close>, newline, \<^verbatim>\<open>x\<close> should yield Identifier \<^verbatim>\<open>x\<close>
  and EndOfFile only.

  The loop of \<^verbatim>\<open>tokenize\<close> calls \<^verbatim>\<open>skipWhitespace\<close> and then \<^verbatim>\<open>skipComments\<close> once per round
  and dispatches directly afterwards. The line comment stops in front of its newline, so
  the dispatch sees the newline and emits it as an Unknown token: the program yields three
  tokens on this source.
\<close>

theorem line_comment_then_newline_emits_unknown:
  "tokenize_source (''// comment'' @ [NEWLINE] @ ''x'') =
     [\<lparr>type_tok = UNKNOWN, value_tok = [NEWLINE], line_tok = 1, column_tok = 11\<rparr>,
      \<lparr>type_tok = IDENTIFIER, value_tok = ''x'', line_tok = 2, column_tok = 1\<rparr>,
      \<lparr>type_tok = END_OF_FILE, value_tok = [], line_tok = 2, column_tok = 2\<rparr>]"
  by code_simp

text \<open>
  Claim C2. For every source, \<^verbatim>\<open>tokenize\<close> returns, and the last token of the sequence it
  returns has kind EndOfFile. Every loop of the program is a total function here, each
  with its termination proof, and no operation has an error branch: \<^const>\<open>peek\<close> and
  \<^const>\<open>advance\<close> test the bound before they index the source.
\<close>

theorem tokenize_ends_with_end_of_file:
  "tokenize_source src \<noteq> [] \<and> type_tok (last (tokenize_source src)) = END_OF_FILE"
  by (simp add: tokenize_source_eq)

text \<open>
  Claim C3. The token sequence of every source holds exactly one EndOfFile token, it is
  the last element, and its line and column are those of the cursor when the loop has
  stopped. The cursor then stands at the end of the source; its line and column are what
  the 32-bit rule \<^const>\<open>walk\<close> gives for the whole source, and for a source of fewer than
  \<open>2^31 - 1\<close> characters they are the position that the rule gives in the integers. The
  empty source yields the single token EndOfFile at line 1, column 1.
\<close>

theorem exactly_one_end_of_file_at_final_cursor:
  "filter (\<lambda>tok. type_tok tok = END_OF_FILE) (tokenize_source src) = [last (tokenize_source src)]
   \<and> last (tokenize_source src) =
       \<lparr>type_tok = END_OF_FILE, value_tok = [],
        line_tok = line (snd (tokenize (Tokenizer_init src))),
        column_tok = column (snd (tokenize (Tokenizer_init src)))\<rparr>
   \<and> pos (snd (tokenize (Tokenizer_init src))) = length src
   \<and> (line (snd (tokenize (Tokenizer_init src))), column (snd (tokenize (Tokenizer_init src))))
       = walk src (1, 1)
   \<and> (length src < 2147483647 \<longrightarrow>
        (sint (line_tok (last (tokenize_source src))),
         sint (column_tok (last (tokenize_source src)))) = position src (1, 1))
   \<and> tokenize_source [] =
       [\<lparr>type_tok = END_OF_FILE, value_tok = [], line_tok = 1, column_tok = 1\<rparr>]"
proof -
  let ?t = "snd (tokenize (Tokenizer_init src))"
  have l: "last (tokenize_source src) =
       \<lparr>type_tok = END_OF_FILE, value_tok = [], line_tok = line ?t, column_tok = column ?t\<rparr>"
    by (simp add: tokenize_source_eq tokenize_final_state)
  note w = final_cursor(2) [of src]
  have b: "(sint (line_tok (last (tokenize_source src))),
         sint (column_tok (last (tokenize_source src)))) = position src (1, 1)"
    if "length src < 2147483647"
    using walk_sint_start [OF that] w by (simp add: l prod_eq_iff)
  have e: "tokenize_source [] =
       [\<lparr>type_tok = END_OF_FILE, value_tok = [], line_tok = 1, column_tok = 1\<rparr>]"
    by (simp add: tokenize_source_eq tokenize_loop_stop)
  from eof_filter [of src] l final_cursor(1) [of src] w b e show ?thesis by blast
qed

theorem exactly_one_end_of_file_witness:
  "length (''a'' @ [NEWLINE] @ ''b'') < 2147483647
   \<and> (sint (line_tok (last (tokenize_source (''a'' @ [NEWLINE] @ ''b'')))),
       sint (column_tok (last (tokenize_source (''a'' @ [NEWLINE] @ ''b''))))) = (2, 2)"
proof -
  have a: "length (''a'' @ [NEWLINE] @ ''b'') < 2147483647" by simp
  have p: "position (''a'' @ [NEWLINE] @ ''b'') (1, 1) = (2, 2)" by simp
  from exactly_one_end_of_file_at_final_cursor [of "''a'' @ [NEWLINE] @ ''b''"] a
  have "(sint (line_tok (last (tokenize_source (''a'' @ [NEWLINE] @ ''b'')))),
       sint (column_tok (last (tokenize_source (''a'' @ [NEWLINE] @ ''b'')))))
        = position (''a'' @ [NEWLINE] @ ''b'') (1, 1)"
    by blast
  with a p show ?thesis by simp
qed

text \<open>
  Claim C10. The last token of every run is the EndOfFile token, and its text is the
  empty string; it is the only EndOfFile token of the sequence.
\<close>

theorem end_of_file_text_empty:
  "tokenize_source src \<noteq> []
   \<and> type_tok (last (tokenize_source src)) = END_OF_FILE
   \<and> value_tok (last (tokenize_source src)) = []
   \<and> map value_tok (filter (\<lambda>tok. type_tok tok = END_OF_FILE) (tokenize_source src)) = [[]]"
proof -
  have "tokenize_source src \<noteq> []"
    "type_tok (last (tokenize_source src)) = END_OF_FILE"
    "value_tok (last (tokenize_source src)) = []"
    by (simp_all add: tokenize_source_eq)
  then show ?thesis by (simp add: eof_filter)
qed

text \<open>
  Claim C4. The cursor invariant: line and column start at 1; reading a newline adds 1 to
  the line and sets the column to 1; reading any other character leaves the line and adds
  1 to the column; and this holds throughout every scan.

  As stated this fails in a scan that reads \<open>2^31 - 1\<close> characters of one line: \<^verbatim>\<open>column\<close>
  is a 32-bit \<^verbatim>\<open>int\<close>, and after \<open>2^31 - 2\<close> blanks it holds \<open>2^31 - 1\<close>. Reading one
  more blank does not give \<open>2^31\<close>, which no \<^verbatim>\<open>int\<close> holds: the column wraps around to
  \<open>- 2^31\<close>, where the rule in the integers (\<^const>\<open>position\<close>) gives \<open>2^31\<close>.
  \<^verbatim>\<open>skipWhitespace\<close> on a source of \<open>2^31 - 1\<close> blanks goes through this state.
\<close>

theorem cursor_column_wraps:
  "pos \<lparr>source = replicate 2147483647 CHR '' '', pos = 2147483646, line = 1,
         column = 2147483647\<rparr>
     < length (source \<lparr>source = replicate 2147483647 CHR '' '', pos = 2147483646, line = 1,
         column = 2147483647\<rparr>)
   \<and> forward (Tokenizer_init (replicate 2147483647 CHR '' '')) 2147483646
       = \<lparr>source = replicate 2147483647 CHR '' '', pos = 2147483646, line = 1,
           column = 2147483647\<rparr>
   \<and> advance \<lparr>source = replicate 2147483647 CHR '' '', pos = 2147483646, line = 1,
         column = 2147483647\<rparr>
       = (CHR '' '', \<lparr>source = replicate 2147483647 CHR '' '', pos = 2147483647, line = 1,
           column = 2147483648\<rparr>)
   \<and> sint (2147483647 :: int32) = 2147483647
   \<and> sint (2147483648 :: int32) = - 2147483648
   \<and> skipWhitespace (Tokenizer_init (replicate 2147483647 CHR '' ''))
       = \<lparr>source = replicate 2147483647 CHR '' '', pos = 2147483647, line = 1,
           column = 2147483648\<rparr>
   \<and> position (replicate 2147483647 CHR '' '') (1, 1) = (1, 2147483648)
   \<and> sint (column (snd (advance \<lparr>source = replicate 2147483647 CHR '' '', pos = 2147483646,
         line = 1, column = 2147483647\<rparr>)))
       \<noteq> sint (column \<lparr>source = replicate 2147483647 CHR '' '', pos = 2147483646,
         line = 1, column = 2147483647\<rparr>) + 1"
proof -
  let ?src = "replicate 2147483647 CHR '' ''"
  have f: "forward (Tokenizer_init ?src) n =
      \<lparr>source = ?src, pos = n, line = fst (walk (take n ?src) (1, 1)),
        column = snd (walk (take n ?src) (1, 1))\<rparr>" for n
    by (simp add: forward_def Tokenizer_init_def rest_def Let_def)
  have t1: "take 2147483646 ?src = replicate 2147483646 CHR '' ''"
    by (simp only: take_replicate) simp
  have t2: "take 2147483647 ?src = ?src"
    by (simp only: take_replicate) simp
  have a: "forward (Tokenizer_init ?src) 2147483646
       = \<lparr>source = ?src, pos = 2147483646, line = 1, column = 2147483647\<rparr>"
    by (simp only: f t1 walk_blanks fst_conv snd_conv) simp
  have b: "advance \<lparr>source = ?src, pos = 2147483646, line = 1, column = 2147483647\<rparr>
       = (CHR '' '', \<lparr>source = ?src, pos = 2147483647, line = 1, column = 2147483648\<rparr>)"
    by (simp add: advance_def Let_def)
  have tw: "takeWhile isspace ?src = ?src"
    by (rule takeWhile_eq_all_conv [THEN iffD2]) (simp add: isspace_def)
  have c: "skipWhitespace (Tokenizer_init ?src)
       = \<lparr>source = ?src, pos = 2147483647, line = 1, column = 2147483648\<rparr>"
    unfolding skipWhitespace_eq init_rest tw length_replicate f t2 walk_blanks fst_conv snd_conv
    by simp
  have d: "position ?src (1, 1) = (1, 2147483648)"
    by (simp only: position_blanks) simp
  have e: "pos \<lparr>source = ?src, pos = 2147483646, line = 1, column = 2147483647\<rparr>
     < length (source \<lparr>source = ?src, pos = 2147483646, line = 1, column = 2147483647\<rparr>)"
    by (simp)
  have g: "sint (2147483647 :: int32) = 2147483647" "sint (2147483648 :: int32) = - 2147483648"
    by simp_all
  have h: "sint (column (snd (advance \<lparr>source = ?src, pos = 2147483646, line = 1,
         column = 2147483647\<rparr>)))
       \<noteq> sint (column \<lparr>source = ?src, pos = 2147483646, line = 1, column = 2147483647\<rparr>) + 1"
    by (simp only: b snd_conv Tokenizer.simps g)
  from a b c d e g h show ?thesis by (simp only: simp_thms)
qed

text \<open>
  Claim C4, amended. Line and column start at 1. In the 32-bit arithmetic of the program
  \<^const>\<open>advance\<close> follows the rule for every state: a newline adds 1 to the line and sets
  the column to 1, any other character leaves the line and adds 1 to the column, and at
  the end of the source nothing changes. Read as numbers, the line grows by 1 where it is
  below \<open>2^31 - 1\<close>, and so does the column. Every operation of the tokenizer only steps
  forward (\<^const>\<open>steps_forward\<close>), so that after it line and column are what \<^const>\<open>walk\<close>
  gives for the characters it has read; and throughout the scan of a source of fewer than
  \<open>2^31 - 1\<close> characters, line and column of every state are the position that the rule
  gives in the integers for the characters read so far.
\<close>

theorem cursor_invariant:
  "(line (Tokenizer_init src), column (Tokenizer_init src)) = (1, 1)
   \<and> fst (advance t) = (if pos t < length (source t) then source t ! pos t else NUL)
   \<and> pos (snd (advance t)) = (if pos t < length (source t) then pos t + 1 else pos t)
   \<and> (line (snd (advance t)), column (snd (advance t))) =
       (if pos t < length (source t)
        then (if source t ! pos t = NEWLINE then (line t + 1, 1) else (line t, column t + 1))
        else (line t, column t))
   \<and> (pos tn < length (source tn) \<and> source tn ! pos tn = NEWLINE \<and> sint (line tn) < 2147483647
        \<longrightarrow> sint (line (snd (advance tn))) = sint (line tn) + 1
            \<and> sint (column (snd (advance tn))) = 1)
   \<and> (pos tc < length (source tc) \<and> source tc ! pos tc \<noteq> NEWLINE
        \<and> sint (column tc) < 2147483647
        \<longrightarrow> sint (line (snd (advance tc))) = sint (line tc)
            \<and> sint (column (snd (advance tc))) = sint (column tc) + 1)
   \<and> (line (skipWhitespace t), column (skipWhitespace t)) =
       walk (take (pos (skipWhitespace t) - pos t) (rest t)) (line t, column t)
   \<and> (line (skipComments t), column (skipComments t)) =
       walk (take (pos (skipComments t) - pos t) (rest t)) (line t, column t)
   \<and> (line (snd (tokenize_dispatch t)), column (snd (tokenize_dispatch t))) =
       walk (take (pos (snd (tokenize_dispatch t)) - pos t) (rest t)) (line t, column t)
   \<and> (line (snd (tokenize t)), column (snd (tokenize t))) =
       walk (take (pos (snd (tokenize t)) - pos t) (rest t)) (line t, column t)
   \<and> steps_forward t (snd (advance t))
   \<and> steps_forward t (skipWhitespace t)
   \<and> steps_forward t (skipComments t)
   \<and> steps_forward t (snd (tokenize_dispatch t))
   \<and> steps_forward t (snd (tokenize t))
   \<and> (steps_forward a b \<and> steps_forward b c \<longrightarrow> steps_forward a c)
   \<and> (length src < 2147483647 \<and> steps_forward (Tokenizer_init src) u \<longrightarrow>
        (sint (line u), sint (column u)) = position (take (pos u) src) (1, 1))"
proof -
  have a: "(line (Tokenizer_init src), column (Tokenizer_init src)) = (1, 1)" by simp
  have b: "fst (advance t) = (if pos t < length (source t) then source t ! pos t else NUL)"
    by (simp add: advance_def Let_def)
  have c: "pos (snd (advance t)) = (if pos t < length (source t) then pos t + 1 else pos t)"
    by (rule pos_advance)
  have d: "(line (snd (advance t)), column (snd (advance t))) =
       (if pos t < length (source t)
        then (if source t ! pos t = NEWLINE then (line t + 1, 1) else (line t, column t + 1))
        else (line t, column t))"
    by (simp add: advance_def Let_def)
  have n: "pos tn < length (source tn) \<and> source tn ! pos tn = NEWLINE \<and> sint (line tn) < 2147483647
        \<longrightarrow> sint (line (snd (advance tn))) = sint (line tn) + 1
            \<and> sint (column (snd (advance tn))) = 1"
    using advance_sint(1) [of tn] by blast
  have o: "pos tc < length (source tc) \<and> source tc ! pos tc \<noteq> NEWLINE
        \<and> sint (column tc) < 2147483647
        \<longrightarrow> sint (line (snd (advance tc))) = sint (line tc)
            \<and> sint (column (snd (advance tc))) = sint (column tc) + 1"
    using advance_sint(2) [of tc] by blast
  note e = steps_forward_position [OF skipWhitespace_forward, of t]
  note f = steps_forward_position [OF skipComments_forward, of t]
  note g = steps_forward_position [OF tokenize_dispatch_forward, of t]
  note h = steps_forward_position [OF tokenize_forward, of t]
  note s = steps_forward_advance [of t] skipWhitespace_forward [of t] skipComments_forward [of t]
    tokenize_dispatch_forward [of t] tokenize_forward [of t]
  have tr: "steps_forward a b \<and> steps_forward b c \<longrightarrow> steps_forward a c"
    using steps_forward_trans by blast
  have r: "length src < 2147483647 \<and> steps_forward (Tokenizer_init src) u \<longrightarrow>
        (sint (line u), sint (column u)) = position (take (pos u) src) (1, 1)"
    using reached_sint by blast
  from a b c d n o e f g h s tr r show ?thesis by (intro conjI)
qed

theorem cursor_invariant_witness:
  "(pos (Tokenizer_init [NEWLINE]) < length (source (Tokenizer_init [NEWLINE]))
      \<and> source (Tokenizer_init [NEWLINE]) ! pos (Tokenizer_init [NEWLINE]) = NEWLINE
      \<and> sint (line (Tokenizer_init [NEWLINE])) < 2147483647)
   \<and> sint (line (snd (advance (Tokenizer_init [NEWLINE])))) = 2
   \<and> sint (column (snd (advance (Tokenizer_init [NEWLINE])))) = 1
   \<and> (pos (Tokenizer_init ''a'') < length (source (Tokenizer_init ''a''))
      \<and> source (Tokenizer_init ''a'') ! pos (Tokenizer_init ''a'') \<noteq> NEWLINE
      \<and> sint (column (Tokenizer_init ''a'')) < 2147483647)
   \<and> sint (line (snd (advance (Tokenizer_init ''a'')))) = 1
   \<and> sint (column (snd (advance (Tokenizer_init ''a'')))) = 2
   \<and> (steps_forward (Tokenizer_init ''a'') (snd (advance (Tokenizer_init ''a'')))
      \<and> steps_forward (snd (advance (Tokenizer_init ''a'')))
           (skipWhitespace (snd (advance (Tokenizer_init ''a'')))))
   \<and> steps_forward (Tokenizer_init ''a'') (skipWhitespace (snd (advance (Tokenizer_init ''a''))))
   \<and> (length (''a'' @ [NEWLINE] @ ''b'') < 2147483647
      \<and> steps_forward (Tokenizer_init (''a'' @ [NEWLINE] @ ''b''))
           (snd (tokenize (Tokenizer_init (''a'' @ [NEWLINE] @ ''b'')))))
   \<and> (sint (line (snd (tokenize (Tokenizer_init (''a'' @ [NEWLINE] @ ''b''))))),
       sint (column (snd (tokenize (Tokenizer_init (''a'' @ [NEWLINE] @ ''b'')))))) = (2, 2)"
proof -
  let ?tn = "Tokenizer_init [NEWLINE]"
  let ?tc = "Tokenizer_init ''a''"
  let ?src = "''a'' @ [NEWLINE] @ ''b''"
  let ?u = "snd (tokenize (Tokenizer_init ?src))"
  note th = cursor_invariant [of ?src ?tc ?tn ?tc ?tc "snd (advance ?tc)"
      "skipWhitespace (snd (advance ?tc))" ?u]
  have hn: "pos ?tn < length (source ?tn) \<and> source ?tn ! pos ?tn = NEWLINE
      \<and> sint (line ?tn) < 2147483647"
    by simp
  have hc: "pos ?tc < length (source ?tc) \<and> source ?tc ! pos ?tc \<noteq> NEWLINE
      \<and> sint (column ?tc) < 2147483647"
    by simp
  have ht: "steps_forward ?tc (snd (advance ?tc))
      \<and> steps_forward (snd (advance ?tc)) (skipWhitespace (snd (advance ?tc)))"
    by (intro conjI steps_forward_advance skipWhitespace_forward)
  have hu: "length ?src < 2147483647 \<and> steps_forward (Tokenizer_init ?src) ?u"
    by (intro conjI tokenize_forward) simp
  have pu: "pos ?u = length ?src" by (rule final_cursor(1))
  have pp: "position (take (length ?src) ?src) (1, 1) = (2, 2)" by simp
  from th hn have 1: "sint (line (snd (advance ?tn))) = sint (line ?tn) + 1"
    "sint (column (snd (advance ?tn))) = 1"
    by blast+
  from th hc have 2: "sint (line (snd (advance ?tc))) = sint (line ?tc)"
    "sint (column (snd (advance ?tc))) = sint (column ?tc) + 1"
    by blast+
  from th ht have 3: "steps_forward ?tc (skipWhitespace (snd (advance ?tc)))" by blast
  from th hu have "(sint (line ?u), sint (column ?u)) = position (take (pos ?u) ?src) (1, 1)"
    by blast
  with pu pp have 4: "(sint (line ?u), sint (column ?u)) = (2, 2)" by simp
  from 1 have vn: "sint (line (snd (advance ?tn))) = 2" by simp
  from 2 have vc: "sint (line (snd (advance ?tc))) = 1" "sint (column (snd (advance ?tc))) = 2"
    by simp_all
  from hn hc ht hu vn 1(2) vc 3 4 show ?thesis by (intro conjI) blast+
qed

text \<open>
  Claim C5. Every token of the output other than EndOfFile carries the line and column
  of the first character of its lexeme, computed by the rule of the cursor invariant.

  As stated this fails for a token behind \<open>2^31 - 1\<close> characters of one line: the
  identifier \<^verbatim>\<open>x\<close> behind \<open>2^31 - 1\<close> blanks stands at column \<open>2^31\<close>, and the 32-bit
  field of its token holds \<open>- 2^31\<close>.
\<close>

theorem token_column_wraps:
  "tokenize_source (replicate 2147483647 CHR '' '' @ ''x'') =
     [\<lparr>type_tok = IDENTIFIER, value_tok = ''x'', line_tok = 1, column_tok = 2147483648\<rparr>,
      \<lparr>type_tok = END_OF_FILE, value_tok = [], line_tok = 1, column_tok = 2147483649\<rparr>]
   \<and> sint (2147483648 :: int32) = - 2147483648
   \<and> position (replicate 2147483647 CHR '' '') (1, 1) = (1, 2147483648)
   \<and> sint (column_tok (hd (tokenize_source (replicate 2147483647 CHR '' '' @ ''x''))))
       \<noteq> snd (position (replicate 2147483647 CHR '' '') (1, 1))"
proof -
  have run: "tokenize_source (replicate 2147483647 CHR '' '' @ ''x'') =
     [\<lparr>type_tok = IDENTIFIER, value_tok = ''x'', line_tok = 1,
        column_tok = 1 + of_nat 2147483647\<rparr>,
      \<lparr>type_tok = END_OF_FILE, value_tok = [], line_tok = 1,
        column_tok = 2 + of_nat 2147483647\<rparr>]"
    by (rule blank_prefix_run)
  have num: "(1 + of_nat 2147483647 :: int32) = 2147483648"
    "(2 + of_nat 2147483647 :: int32) = 2147483649"
    by simp_all
  have wrap: "sint (2147483648 :: int32) = - 2147483648" by simp
  have rule: "position (replicate 2147483647 CHR '' '') (1, 1) = (1, 2147483648)"
    by (simp only: position_blanks) simp
  have "sint (column_tok (hd (tokenize_source (replicate 2147483647 CHR '' '' @ ''x''))))
      = - 2147483648"
    by (simp only: run num list.sel Token.simps wrap)
  then have "sint (column_tok (hd (tokenize_source (replicate 2147483647 CHR '' '' @ ''x''))))
       \<noteq> snd (position (replicate 2147483647 CHR '' '') (1, 1))"
    by (simp only: rule snd_conv)
  with run num wrap rule show ?thesis by (simp only: simp_thms)
qed

text \<open>
  Claim C5, amended. Every token of the output other than EndOfFile is what the dispatch
  reads when the cursor stands at some offset \<open>i\<close> of the source; its lexeme starts there
  (\<^const>\<open>lexeme_at\<close>), and its line and column are what the 32-bit rule \<^const>\<open>walk\<close> gives
  for the \<open>i\<close> characters in front of it. Where \<open>i\<close> is below \<open>2^31 - 1\<close>, so for every
  token of a source of at most \<open>2^31 - 1\<close> characters, they are the position of that first
  character as the rule gives it in the integers.
\<close>

theorem token_position:
  assumes "tok \<in> set (tokenize_source src)" and "type_tok tok \<noteq> END_OF_FILE"
  shows "\<exists>i<length src.
           tok = fst (tokenize_dispatch (forward (Tokenizer_init src) i))
           \<and> lexeme_at src i tok
           \<and> (line_tok tok, column_tok tok) = walk (take i src) (1, 1)
           \<and> (i < 2147483647 \<longrightarrow>
                (sint (line_tok tok), sint (column_tok tok)) = position (take i src) (1, 1))"
proof -
  from source_tokens_origin [OF assms] obtain i where
    i: "i < length src" "tok = fst (tokenize_dispatch (forward (Tokenizer_init src) i))"
    by blast
  let ?t = "forward (Tokenizer_init src) i"
  from i(1) have r: "rest ?t = src ! i # drop (Suc i) src"
    by (simp add: Cons_nth_drop_Suc)
  from position_forward [of "Tokenizer_init src" i]
  have p: "(line ?t, column ?t) = walk (take i src) (1, 1)" by simp
  have r': "rest ?t = drop i src" by simp
  from dispatch_token(3) [OF r] i have lex: "lexeme_at src i tok"
    unfolding lexeme_at_def r' by simp
  from dispatch_token(1,2) [OF r] i p
  have w: "(line_tok tok, column_tok tok) = walk (take i src) (1, 1)" by simp
  have b: "(sint (line_tok tok), sint (column_tok tok)) = position (take i src) (1, 1)"
    if "i < 2147483647"
  proof -
    from that i(1) have "length (take i src) < 2147483647" by simp
    from walk_sint_start [OF this] w show ?thesis by (simp add: prod_eq_iff)
  qed
  from i lex w b show ?thesis by blast
qed

theorem token_position_witness:
  "\<lparr>type_tok = IDENTIFIER, value_tok = ''bc'', line_tok = 2, column_tok = 1\<rparr>
     \<in> set (tokenize_source (''a'' @ [NEWLINE] @ ''bc''))
   \<and> type_tok \<lparr>type_tok = IDENTIFIER, value_tok = ''bc'', line_tok = 2, column_tok = 1\<rparr>
       \<noteq> END_OF_FILE
   \<and> (\<exists>i<length (''a'' @ [NEWLINE] @ ''bc'').
         \<lparr>type_tok = IDENTIFIER, value_tok = ''bc'', line_tok = 2, column_tok = 1\<rparr>
           = fst (tokenize_dispatch (forward (Tokenizer_init (''a'' @ [NEWLINE] @ ''bc'')) i))
         \<and> lexeme_at (''a'' @ [NEWLINE] @ ''bc'') i
             \<lparr>type_tok = IDENTIFIER, value_tok = ''bc'', line_tok = 2, column_tok = 1\<rparr>
         \<and> i < 2147483647
         \<and> position (take i (''a'' @ [NEWLINE] @ ''bc'')) (1, 1) = (2, 1))"
proof -
  let ?src = "''a'' @ [NEWLINE] @ ''bc''"
  let ?tok = "\<lparr>type_tok = IDENTIFIER, value_tok = ''bc'', line_tok = 2, column_tok = 1\<rparr>"
  have "tokenize_source ?src =
      [\<lparr>type_tok = IDENTIFIER, value_tok = ''a'', line_tok = 1, column_tok = 1\<rparr>, ?tok,
       \<lparr>type_tok = END_OF_FILE, value_tok = [], line_tok = 2, column_tok = 3\<rparr>]"
    by code_simp
  then have m: "?tok \<in> set (tokenize_source ?src)" by simp
  have n: "type_tok ?tok \<noteq> END_OF_FILE" by simp
  from token_position [OF m n] obtain i where
    i: "i < length ?src" "?tok = fst (tokenize_dispatch (forward (Tokenizer_init ?src) i))"
      "lexeme_at ?src i ?tok"
      "i < 2147483647 \<longrightarrow>
         (sint (line_tok ?tok), sint (column_tok ?tok)) = position (take i ?src) (1, 1)"
    by blast
  from i(1) have s: "i < 2147483647" by simp
  with i(4) have "position (take i ?src) (1, 1) = (2, 1)" by simp
  with i s m n show ?thesis by blast
qed

text \<open>
  Claim C6. An identifier-shaped lexeme, that is the longest run of letters, digits and
  underscores at a letter or an underscore, is classified Keyword exactly when it is one
  of the reserved words of \<^const>\<open>keywords_set\<close>, and Identifier otherwise. The first part is
  about the sub-scanner at any cursor; the second about every Keyword or Identifier token
  of a whole run.
\<close>

theorem keyword_classification:
  "(rest t = c # cs \<and> (isalpha c \<or> c = CHR ''_'') \<longrightarrow>
      tokenize_dispatch t = readIdentifierOrKeyword t
      \<and> readIdentifierOrKeyword t =
          (\<lparr>type_tok = (if takeWhile ident_char (c # cs) \<in> set keywords_set
                         then KEYWORD else IDENTIFIER),
            value_tok = takeWhile ident_char (c # cs),
            line_tok = line t, column_tok = column t\<rparr>,
           forward t (length (takeWhile ident_char (c # cs))))
      \<and> takeWhile ident_char (c # cs) \<noteq> []
      \<and> rest (snd (readIdentifierOrKeyword t)) = dropWhile ident_char (c # cs))
   \<and> (tok \<in> set (tokenize_source src) \<and> (type_tok tok = KEYWORD \<or> type_tok tok = IDENTIFIER) \<longrightarrow>
        (type_tok tok = KEYWORD \<longleftrightarrow> value_tok tok \<in> set keywords_set))"
proof (intro conjI impI)
  assume a: "rest t = c # cs \<and> (isalpha c \<or> c = CHR ''_'')"
  then have r: "rest t = c # cs" and h: "isalpha c \<or> c = CHR ''_''" by simp_all
  show "tokenize_dispatch t = readIdentifierOrKeyword t"
    by (rule dispatch_identifier [OF r h])
  show "readIdentifierOrKeyword t =
          (\<lparr>type_tok = (if takeWhile ident_char (c # cs) \<in> set keywords_set
                         then KEYWORD else IDENTIFIER),
            value_tok = takeWhile ident_char (c # cs),
            line_tok = line t, column_tok = column t\<rparr>,
           forward t (length (takeWhile ident_char (c # cs))))"
    unfolding readIdentifierOrKeyword_eq r ..
  from isalpha_ident_char [OF h] show "takeWhile ident_char (c # cs) \<noteq> []" by simp
  show "rest (snd (readIdentifierOrKeyword t)) = dropWhile ident_char (c # cs)"
    unfolding readIdentifierOrKeyword_eq snd_conv rest_forward r
    by (rule drop_length_takeWhile)
next
  assume a: "tok \<in> set (tokenize_source src) \<and> (type_tok tok = KEYWORD \<or> type_tok tok = IDENTIFIER)"
  then have "type_tok tok \<noteq> END_OF_FILE" by auto
  with a source_tokens_origin [of tok src] obtain i where
    i: "i < length src" "tok = fst (tokenize_dispatch (forward (Tokenizer_init src) i))"
    by blast
  let ?t = "forward (Tokenizer_init src) i"
  from i(1) have r: "rest ?t = src ! i # drop (Suc i) src"
    by (simp add: Cons_nth_drop_Suc)
  from a i(2) dispatch_other_type [of ?t] r
  have h: "isalpha (src ! i) \<or> src ! i = CHR ''_''" by auto
  from i(2) show "type_tok tok = KEYWORD \<longleftrightarrow> value_tok tok \<in> set keywords_set"
    by (simp add: dispatch_identifier [OF r h] readIdentifierOrKeyword_eq)
qed

theorem keyword_classification_witness:
  "(rest (Tokenizer_init ''int x1'') = CHR ''i'' # ''nt x1'' \<and> (isalpha CHR ''i'' \<or> CHR ''i'' = CHR ''_''))
   \<and> tokenize_dispatch (Tokenizer_init ''int x1'') =
       (\<lparr>type_tok = KEYWORD, value_tok = ''int'', line_tok = 1, column_tok = 1\<rparr>,
        forward (Tokenizer_init ''int x1'') (length ''int''))
   \<and> rest (snd (readIdentifierOrKeyword (Tokenizer_init ''int x1''))) = '' x1''
   \<and> \<lparr>type_tok = IDENTIFIER, value_tok = ''x1'', line_tok = 1, column_tok = 5\<rparr>
        \<in> set (tokenize_source ''int x1'')
   \<and> ''x1'' \<notin> set keywords_set"
proof -
  let ?t = "Tokenizer_init ''int x1''"
  let ?tok = "\<lparr>type_tok = IDENTIFIER, value_tok = ''x1'', line_tok = 1, column_tok = 5\<rparr>"
  have a: "rest ?t = CHR ''i'' # ''nt x1'' \<and> (isalpha CHR ''i'' \<or> CHR ''i'' = CHR ''_'')"
    by (simp add: isalpha_def)
  have "tokenize_source ''int x1'' =
      [\<lparr>type_tok = KEYWORD, value_tok = ''int'', line_tok = 1, column_tok = 1\<rparr>, ?tok,
       \<lparr>type_tok = END_OF_FILE, value_tok = [], line_tok = 1, column_tok = 7\<rparr>]"
    by code_simp
  then have b: "?tok \<in> set (tokenize_source ''int x1'') \<and>
      (type_tok ?tok = KEYWORD \<or> type_tok ?tok = IDENTIFIER)"
    by simp
  have k: "takeWhile ident_char ''int x1'' = ''int''"
    by (simp add: ident_char_def isalnum_def isalpha_def isdigit_def)
  have d: "dropWhile ident_char ''int x1'' = '' x1''"
    by (simp add: ident_char_def isalnum_def isalpha_def isdigit_def)
  have m: "''int'' \<in> set keywords_set" by (simp add: keywords_set_def)
  note th = keyword_classification [of ?t "CHR ''i''" "''nt x1''" ?tok "''int x1''",
      unfolded k d]
  from th a b m show ?thesis by simp
qed

text \<open>
  Claim C7. At an operator character the operator sub-scanner reads two characters into
  one Operator token exactly when the current character and the next one form a pair of
  the table \<^const>\<open>two_char_operators\<close>, and one character otherwise; the text of the token
  is what it has read. The source \<^verbatim>\<open>==\<close> yields one Operator token, the source \<^verbatim>\<open><<\<close> two
  Operator tokens of one character each.
\<close>

theorem operator_scan:
  "(rest t = c # cs \<and> c \<in> set operator_chars \<longrightarrow>
      tokenize_dispatch t = readOperator t
      \<and> readOperator t =
          (if [c, lookahead cs] \<in> set two_char_operators
           then (\<lparr>type_tok = OPERATOR, value_tok = [c, lookahead cs], line_tok = line t,
                  column_tok = column t\<rparr>, forward t 2)
           else (\<lparr>type_tok = OPERATOR, value_tok = [c], line_tok = line t,
                  column_tok = column t\<rparr>, forward t 1))
      \<and> value_tok (fst (readOperator t))
          = take (pos (snd (readOperator t)) - pos t) (rest t))
   \<and> tokenize_source ''=='' =
        [\<lparr>type_tok = OPERATOR, value_tok = ''=='', line_tok = 1, column_tok = 1\<rparr>,
         \<lparr>type_tok = END_OF_FILE, value_tok = [], line_tok = 1, column_tok = 3\<rparr>]
   \<and> tokenize_source ''<<'' =
        [\<lparr>type_tok = OPERATOR, value_tok = ''<'', line_tok = 1, column_tok = 1\<rparr>,
         \<lparr>type_tok = OPERATOR, value_tok = ''<'', line_tok = 1, column_tok = 2\<rparr>,
         \<lparr>type_tok = END_OF_FILE, value_tok = [], line_tok = 1, column_tok = 3\<rparr>]"
proof (intro conjI impI)
  assume a: "rest t = c # cs \<and> c \<in> set operator_chars"
  then have r: "rest t = c # cs" and h: "c \<in> set operator_chars" by simp_all
  show "tokenize_dispatch t = readOperator t" by (rule dispatch_operator [OF r h])
  show eq: "readOperator t =
          (if [c, lookahead cs] \<in> set two_char_operators
           then (\<lparr>type_tok = OPERATOR, value_tok = [c, lookahead cs], line_tok = line t,
                  column_tok = column t\<rparr>, forward t 2)
           else (\<lparr>type_tok = OPERATOR, value_tok = [c], line_tok = line t,
                  column_tok = column t\<rparr>, forward t 1))"
    by (simp add: readOperator_eq [OF r] lookahead_def Let_def)
  show "value_tok (fst (readOperator t)) = take (pos (snd (readOperator t)) - pos t) (rest t)"
  proof (cases "[c, lookahead cs] \<in> set two_char_operators")
    case True
    from two_char_lookahead [OF this] obtain d ds where ds: "cs = d # ds" "lookahead cs = d"
      by (cases cs) auto
    from True have "value_tok (fst (readOperator t)) = [c, d]"
      "pos (snd (readOperator t)) - pos t = 2"
      by (simp_all add: eq ds(2))
    with r ds(1) show ?thesis by (simp add: numeral_2_eq_2)
  next
    case False
    with r show ?thesis by (simp add: eq)
  qed
next
  show "tokenize_source ''=='' =
        [\<lparr>type_tok = OPERATOR, value_tok = ''=='', line_tok = 1, column_tok = 1\<rparr>,
         \<lparr>type_tok = END_OF_FILE, value_tok = [], line_tok = 1, column_tok = 3\<rparr>]"
    by code_simp
next
  show "tokenize_source ''<<'' =
        [\<lparr>type_tok = OPERATOR, value_tok = ''<'', line_tok = 1, column_tok = 1\<rparr>,
         \<lparr>type_tok = OPERATOR, value_tok = ''<'', line_tok = 1, column_tok = 2\<rparr>,
         \<lparr>type_tok = END_OF_FILE, value_tok = [], line_tok = 1, column_tok = 3\<rparr>]"
    by code_simp
qed

theorem operator_scan_witness:
  "(rest (Tokenizer_init ''->x'') = CHR ''-'' # ''>x'' \<and> CHR ''-'' \<in> set operator_chars)
   \<and> tokenize_dispatch (Tokenizer_init ''->x'') =
       (\<lparr>type_tok = OPERATOR, value_tok = ''->'', line_tok = 1, column_tok = 1\<rparr>,
        forward (Tokenizer_init ''->x'') 2)
   \<and> (rest (Tokenizer_init ''-x'') = CHR ''-'' # ''x'' \<and> CHR ''-'' \<in> set operator_chars)
   \<and> tokenize_dispatch (Tokenizer_init ''-x'') =
       (\<lparr>type_tok = OPERATOR, value_tok = ''-'', line_tok = 1, column_tok = 1\<rparr>,
        forward (Tokenizer_init ''-x'') 1)"
proof -
  have a: "rest (Tokenizer_init ''->x'') = CHR ''-'' # ''>x'' \<and> CHR ''-'' \<in> set operator_chars"
    by (simp add: operator_chars_def)
  have b: "rest (Tokenizer_init ''-x'') = CHR ''-'' # ''x'' \<and> CHR ''-'' \<in> set operator_chars"
    by (simp add: operator_chars_def)
  have c: "[CHR ''-'', lookahead ''>x''] \<in> set two_char_operators"
    by (simp add: lookahead_def two_char_operators_def)
  have d: "[CHR ''-'', lookahead ''x''] \<notin> set two_char_operators"
    by (simp add: lookahead_def two_char_operators_def)
  have e: "lookahead ''>x'' = CHR ''>''" by (simp add: lookahead_def)
  from operator_scan [of "Tokenizer_init ''->x''" "CHR ''-''" "''>x''"]
    operator_scan [of "Tokenizer_init ''-x''" "CHR ''-''" "''x''"] a b c d e
  show ?thesis by simp
qed

text \<open>
  Claim C8. The string sub-scanner reads the opening and the closing double quote without
  putting them into the text of the token; it reads each backslash inside the literal
  without emitting it and emits the character after it as it is.

  As stated this fails where the character after a backslash is the byte 0: \<^const>\<open>peek\<close>
  answers 0 at the end of the source, so \<^verbatim>\<open>readString\<close> takes a byte 0 for the end of the
  input, emits nothing for it and ends the literal in front of it. \<^const>\<open>spec_string_text\<close>
  is the text as the claim words it.
\<close>

theorem string_scan_backslash_NUL:
  "readString (Tokenizer_init [DQUOTE, CHR ''a'', BACKSLASH, NUL, CHR ''b'', DQUOTE]) =
     (\<lparr>type_tok = STRING_LITERAL, value_tok = ''a'', line_tok = 1, column_tok = 1\<rparr>,
      \<lparr>source = [DQUOTE, CHR ''a'', BACKSLASH, NUL, CHR ''b'', DQUOTE], pos = 3, line = 1,
        column = 4\<rparr>)
   \<and> spec_string_text [CHR ''a'', BACKSLASH, NUL, CHR ''b'', DQUOTE] = [CHR ''a'', NUL, CHR ''b'']
   \<and> value_tok (fst (readString (Tokenizer_init [DQUOTE, CHR ''a'', BACKSLASH, NUL, CHR ''b'', DQUOTE])))
       \<noteq> spec_string_text [CHR ''a'', BACKSLASH, NUL, CHR ''b'', DQUOTE]
   \<and> tokenize_source [DQUOTE, CHR ''a'', BACKSLASH, NUL, CHR ''b'', DQUOTE] =
       [\<lparr>type_tok = STRING_LITERAL, value_tok = ''a'', line_tok = 1, column_tok = 1\<rparr>,
        \<lparr>type_tok = UNKNOWN, value_tok = [NUL], line_tok = 1, column_tok = 4\<rparr>,
        \<lparr>type_tok = IDENTIFIER, value_tok = ''b'', line_tok = 1, column_tok = 5\<rparr>,
        \<lparr>type_tok = STRING_LITERAL, value_tok = [], line_tok = 1, column_tok = 6\<rparr>,
        \<lparr>type_tok = END_OF_FILE, value_tok = [], line_tok = 1, column_tok = 7\<rparr>]"
  by code_simp

text \<open>
  Claim C8, amended. At a double quote the dispatch calls the string sub-scanner. The text
  of its token is \<^const>\<open>string_text\<close> of the input behind the opening quote: quotes are
  left out, a backslash is dropped and the character behind it kept, and the literal ends
  at the closing quote, at the end of the input, or in front of a byte 0. It reads the
  opening quote, \<^const>\<open>string_len\<close> characters, and the closing quote when there is one.
  Where the input has no byte 0, the text is the one the claim words. The source of the
  eight characters \<^verbatim>\<open>"ab\"cd"\<close> yields one StringLiteral token with the text \<^verbatim>\<open>ab"cd\<close>.
\<close>

theorem string_scan:
  "(rest t = DQUOTE # body \<longrightarrow>
      tokenize_dispatch t = readString t
      \<and> readString t =
          (\<lparr>type_tok = STRING_LITERAL, value_tok = string_text body, line_tok = line t,
             column_tok = column t\<rparr>,
           forward t (1 + string_len body + (if string_closed body then 1 else 0)))
      \<and> (NUL \<notin> set body \<longrightarrow> string_text body = spec_string_text body))
   \<and> tokenize_source
         [DQUOTE, CHR ''a'', CHR ''b'', BACKSLASH, DQUOTE, CHR ''c'', CHR ''d'', DQUOTE] =
       [\<lparr>type_tok = STRING_LITERAL, value_tok = [CHR ''a'', CHR ''b'', DQUOTE, CHR ''c'', CHR ''d''],
          line_tok = 1, column_tok = 1\<rparr>,
        \<lparr>type_tok = END_OF_FILE, value_tok = [], line_tok = 1, column_tok = 9\<rparr>]"
proof (intro conjI impI)
  assume r: "rest t = DQUOTE # body"
  show "tokenize_dispatch t = readString t" by (rule dispatch_string [OF r])
  show "readString t =
          (\<lparr>type_tok = STRING_LITERAL, value_tok = string_text body, line_tok = line t,
             column_tok = column t\<rparr>,
           forward t (1 + string_len body + (if string_closed body then 1 else 0)))"
    by (rule readString_eq [OF r])
next
  assume "NUL \<notin> set body"
  then show "string_text body = spec_string_text body" by (rule string_text_spec)
next
  show "tokenize_source
         [DQUOTE, CHR ''a'', CHR ''b'', BACKSLASH, DQUOTE, CHR ''c'', CHR ''d'', DQUOTE] =
       [\<lparr>type_tok = STRING_LITERAL, value_tok = [CHR ''a'', CHR ''b'', DQUOTE, CHR ''c'', CHR ''d''],
          line_tok = 1, column_tok = 1\<rparr>,
        \<lparr>type_tok = END_OF_FILE, value_tok = [], line_tok = 1, column_tok = 9\<rparr>]"
    by code_simp
qed

theorem string_scan_witness:
  "rest (Tokenizer_init [DQUOTE, CHR ''a'', CHR ''b'', BACKSLASH, DQUOTE, CHR ''c'', CHR ''d'', DQUOTE])
     = DQUOTE # [CHR ''a'', CHR ''b'', BACKSLASH, DQUOTE, CHR ''c'', CHR ''d'', DQUOTE]
   \<and> NUL \<notin> set [CHR ''a'', CHR ''b'', BACKSLASH, DQUOTE, CHR ''c'', CHR ''d'', DQUOTE]
   \<and> readString
        (Tokenizer_init [DQUOTE, CHR ''a'', CHR ''b'', BACKSLASH, DQUOTE, CHR ''c'', CHR ''d'', DQUOTE])
     = (\<lparr>type_tok = STRING_LITERAL, value_tok = [CHR ''a'', CHR ''b'', DQUOTE, CHR ''c'', CHR ''d''],
          line_tok = 1, column_tok = 1\<rparr>,
        forward
          (Tokenizer_init [DQUOTE, CHR ''a'', CHR ''b'', BACKSLASH, DQUOTE, CHR ''c'', CHR ''d'', DQUOTE])
          8)
   \<and> spec_string_text [CHR ''a'', CHR ''b'', BACKSLASH, DQUOTE, CHR ''c'', CHR ''d'', DQUOTE]
      = [CHR ''a'', CHR ''b'', DQUOTE, CHR ''c'', CHR ''d'']"
proof -
  let ?body = "[CHR ''a'', CHR ''b'', BACKSLASH, DQUOTE, CHR ''c'', CHR ''d'', DQUOTE]"
  have a: "rest (Tokenizer_init (DQUOTE # ?body)) = DQUOTE # ?body" by simp
  have b: "NUL \<notin> set ?body" by simp
  have c: "string_text ?body = [CHR ''a'', CHR ''b'', DQUOTE, CHR ''c'', CHR ''d'']" by simp
  have d: "1 + string_len ?body + (if string_closed ?body then 1 else 0) = 8" by simp
  note th = string_scan [of "Tokenizer_init (DQUOTE # ?body)" ?body, unfolded c d]
  from th a b show ?thesis by simp
qed

text \<open>
  Claim C9. When the end of the input is reached inside a string literal, in front of any
  closing quote, a StringLiteral token with the characters gathered so far is emitted all
  the same, and the scan ends regularly with EndOfFile. When the last character of the
  input is a backslash inside a string, the loop of the sub-scanner reads the backslash,
  adds nothing to the text and stops with the cursor at the end of the source.
\<close>

theorem unterminated_string:
  "(rest t = DQUOTE # body \<and> string_len body = length body \<longrightarrow>
      readString t =
        (\<lparr>type_tok = STRING_LITERAL, value_tok = string_text body, line_tok = line t,
           column_tok = column t\<rparr>, forward t (1 + length body))
      \<and> pos (snd (readString t)) = length (source t))
   \<and> (string_len body = length body \<longrightarrow>
        tokenize_source (DQUOTE # body) =
          [\<lparr>type_tok = STRING_LITERAL, value_tok = string_text body, line_tok = 1,
              column_tok = 1\<rparr>,
           \<lparr>type_tok = END_OF_FILE, value_tok = [],
              line_tok = fst (walk (DQUOTE # body) (1, 1)),
              column_tok = snd (walk (DQUOTE # body) (1, 1))\<rparr>])
   \<and> (rest u = [BACKSLASH] \<longrightarrow>
        readString_loop u v = (v, forward u 1) \<and> pos (forward u 1) = length (source u))
   \<and> tokenize_source [DQUOTE, CHR ''a'', CHR ''b'', BACKSLASH] =
        [\<lparr>type_tok = STRING_LITERAL, value_tok = ''ab'', line_tok = 1, column_tok = 1\<rparr>,
         \<lparr>type_tok = END_OF_FILE, value_tok = [], line_tok = 1, column_tok = 5\<rparr>]"
proof -
  have open_end: "\<not> string_closed body" if "string_len body = length body"
    using that string_closed_len [of body] by auto
  have one: "readString t =
        (\<lparr>type_tok = STRING_LITERAL, value_tok = string_text body, line_tok = line t,
           column_tok = column t\<rparr>, forward t (1 + length body))
      \<and> pos (snd (readString t)) = length (source t)"
    if h: "rest t = DQUOTE # body \<and> string_len body = length body"
  proof -
    from h have r: "rest t = DQUOTE # body" and l: "string_len body = length body" by simp_all
    from readString_eq [OF r] open_end [OF l] l
    have eq: "readString t =
        (\<lparr>type_tok = STRING_LITERAL, value_tok = string_text body, line_tok = line t,
           column_tok = column t\<rparr>, forward t (1 + length body))"
      by simp
    from r rest_length [of t] have "length (source t) - pos t = 1 + length body" by simp
    then have "pos t + (1 + length body) = length (source t)" by simp
    with eq show ?thesis by simp
  qed
  have two: "tokenize_source (DQUOTE # body) =
          [\<lparr>type_tok = STRING_LITERAL, value_tok = string_text body, line_tok = 1,
              column_tok = 1\<rparr>,
           \<lparr>type_tok = END_OF_FILE, value_tok = [],
              line_tok = fst (walk (DQUOTE # body) (1, 1)),
              column_tok = snd (walk (DQUOTE # body) (1, 1))\<rparr>]"
    if l: "string_len body = length body"
  proof -
    let ?t0 = "Tokenizer_init (DQUOTE # body)"
    have r: "rest ?t0 = DQUOTE # body" by simp
    from readString_eq [OF r] open_end [OF l] l
    have "tokenize_dispatch ?t0 =
        (\<lparr>type_tok = STRING_LITERAL, value_tok = string_text body, line_tok = 1,
           column_tok = 1\<rparr>, forward ?t0 (length (DQUOTE # body)))"
      by (simp add: dispatch_string [OF r])
    then show ?thesis
      by (intro single_token_run [of _ DQUOTE body]) simp_all
  qed
  have three: "readString_loop u v = (v, forward u 1) \<and> pos (forward u 1) = length (source u)"
    if r: "rest u = [BACKSLASH]"
  proof -
    from r rest_length [of u] have "length (source u) - pos u = 1" by simp
    then have "pos u + 1 = length (source u)" by simp
    with r show ?thesis by (simp add: readString_loop_eq)
  qed
  have four: "tokenize_source [DQUOTE, CHR ''a'', CHR ''b'', BACKSLASH] =
        [\<lparr>type_tok = STRING_LITERAL, value_tok = ''ab'', line_tok = 1, column_tok = 1\<rparr>,
         \<lparr>type_tok = END_OF_FILE, value_tok = [], line_tok = 1, column_tok = 5\<rparr>]"
    by code_simp
  from one two three four show ?thesis by blast
qed

theorem unterminated_string_witness:
  "(rest (Tokenizer_init [DQUOTE, CHR ''a'', BACKSLASH, CHR ''n'']) = DQUOTE # [CHR ''a'', BACKSLASH, CHR ''n'']
      \<and> string_len [CHR ''a'', BACKSLASH, CHR ''n''] = length [CHR ''a'', BACKSLASH, CHR ''n''])
   \<and> readString (Tokenizer_init [DQUOTE, CHR ''a'', BACKSLASH, CHR ''n'']) =
        (\<lparr>type_tok = STRING_LITERAL, value_tok = ''an'', line_tok = 1, column_tok = 1\<rparr>,
         forward (Tokenizer_init [DQUOTE, CHR ''a'', BACKSLASH, CHR ''n''])
           (1 + length [CHR ''a'', BACKSLASH, CHR ''n'']))
   \<and> tokenize_source [DQUOTE, CHR ''a'', BACKSLASH, CHR ''n''] =
        [\<lparr>type_tok = STRING_LITERAL, value_tok = ''an'', line_tok = 1, column_tok = 1\<rparr>,
         \<lparr>type_tok = END_OF_FILE, value_tok = [], line_tok = 1, column_tok = 5\<rparr>]
   \<and> rest (forward (Tokenizer_init [DQUOTE, CHR ''a'', BACKSLASH]) 2) = [BACKSLASH]
   \<and> readString_loop (forward (Tokenizer_init [DQUOTE, CHR ''a'', BACKSLASH]) 2) ''a'' =
        (''a'', forward (Tokenizer_init [DQUOTE, CHR ''a'', BACKSLASH]) 3)
   \<and> pos (forward (Tokenizer_init [DQUOTE, CHR ''a'', BACKSLASH]) 3) = 3"
proof -
  let ?body = "[CHR ''a'', BACKSLASH, CHR ''n'']"
  let ?u = "forward (Tokenizer_init [DQUOTE, CHR ''a'', BACKSLASH]) 2"
  have a: "rest (Tokenizer_init (DQUOTE # ?body)) = DQUOTE # ?body
           \<and> string_len ?body = length ?body"
    by simp
  have b: "rest ?u = [BACKSLASH]" by simp
  have c: "string_text ?body = ''an''" by simp
  have d: "walk (DQUOTE # ?body) (1, 1) = (1, 5)" by simp
  have e: "forward ?u 1 = forward (Tokenizer_init [DQUOTE, CHR ''a'', BACKSLASH]) 3"
    by (simp add: forward_forward)
  note th = unterminated_string [of "Tokenizer_init (DQUOTE # ?body)" ?body ?u "''a''",
      unfolded c d e]
  from th a b show ?thesis by simp
qed

end
